theory Spec2Isabelle
  imports Main "HOL-Library.Word"
begin

unbundle bit_operations_syntax

section \<open>LRU-K replacer (src/buffer/lru\_k\_replacer.cpp)\<close>

text \<open>
  \<^verbatim>\<open>size_t\<close> is a 64-bit word, so that \<^verbatim>\<open>curr_size_--\<close> and \<^verbatim>\<open>max_size_--\<close> wrap as the
  code does. \<^verbatim>\<open>frame_id_t\<close> is a 32-bit signed integer, read here as its \<open>int\<close> value. The
  three \<^verbatim>\<open>unordered_map\<close>s are read with \<^verbatim>\<open>operator[]\<close> only, which yields a value-initialised
  entry for an absent key, so they are total functions with the defaults \<open>0\<close>, \<open>[]\<close> and
  \<open>False\<close>. The two iterator maps \<^verbatim>\<open>less_k_map_\<close> and \<^verbatim>\<open>k_map_\<close> only remember where a frame
  sits in its list; erasing through them is erasing the frame's entry from the list, and
  erasing through an iterator that was never stored is the error \<open>InvalidIterator\<close>. The
  latch is not modelled. Member names are written without their trailing underscore
  (\<open>k_value\<close> for \<^verbatim>\<open>k_\<close>).
\<close>

type_synonym size_t = "64 word"
type_synonym frame_id_t = int
type_synonym kth_timestamp = "frame_id_t \<times> size_t"

datatype error = Exception | InvalidIterator | NullPointer | OutOfBounds

record replacer =
  replacer_size :: size_t
  max_size :: size_t
  k_value :: size_t
  curr_size :: size_t
  current_timestamp :: size_t
  access_times :: "frame_id_t \<Rightarrow> size_t"
  history_list :: "frame_id_t \<Rightarrow> size_t list"
  evictable :: "frame_id_t \<Rightarrow> bool"
  lru_less_k :: "frame_id_t list"
  lru_k :: "kth_timestamp list"

text \<open>
  Modelled from the spec: the header that declares the members is not among the sources.
  The spec gives each frame an access count, a history of timestamps and an evictable
  flag, a clock that counts recorded accesses, and the count of evictable frames; those
  that the constructor does not name start at zero or empty.
\<close>

definition LRUKReplacer :: "size_t \<Rightarrow> size_t \<Rightarrow> replacer" where
  "LRUKReplacer num_frames k =
     \<lparr>replacer_size = num_frames, max_size = num_frames, k_value = k, curr_size = 0,
      current_timestamp = 0, access_times = (\<lambda>_. 0), history_list = (\<lambda>_. []),
      evictable = (\<lambda>_. False), lru_less_k = [], lru_k = []\<rparr>"

text \<open>\<^verbatim>\<open>static_cast<frame_id_t>(replacer_size_)\<close> and \<^verbatim>\<open>static_cast<int>(left.second)\<close>.\<close>

definition to_int32 :: "size_t \<Rightarrow> int" where
  "to_int32 w = sint (ucast w :: 32 word)"

text \<open>The comparator handed to \<^verbatim>\<open>std::upper_bound\<close>.\<close>

definition kth_less :: "kth_timestamp \<Rightarrow> kth_timestamp \<Rightarrow> bool" where
  "kth_less left right = (to_int32 (snd left) < to_int32 (snd right))"

text \<open>
  \<^verbatim>\<open>lru_k_.insert(std::upper_bound(begin, end, kth, comp), kth)\<close>: the entry goes before the
  first element that \<open>kth\<close> is less than. (On a list ordered by the comparator, which these
  insertions keep, the library's search finds that position.)
\<close>

fun upper_bound_insert :: "kth_timestamp \<Rightarrow> kth_timestamp list \<Rightarrow> kth_timestamp list" where
  "upper_bound_insert kth [] = [kth]"
| "upper_bound_insert kth (e # es) =
     (if kth_less kth e then kth # e # es else e # upper_bound_insert kth es)"

text \<open>\<^verbatim>\<open>lru_k_.erase(k_map_[frame_id])\<close> and \<^verbatim>\<open>lru_less_k_.erase(less_k_map_[frame_id])\<close>.\<close>

fun erase_kth :: "frame_id_t \<Rightarrow> kth_timestamp list \<Rightarrow> kth_timestamp list option" where
  "erase_kth f [] = None"
| "erase_kth f (e # es) =
     (if fst e = f then Some es else map_option ((#) e) (erase_kth f es))"

fun erase_less_k :: "frame_id_t \<Rightarrow> frame_id_t list \<Rightarrow> frame_id_t list option" where
  "erase_less_k f [] = None"
| "erase_less_k f (e # es) =
     (if e = f then Some es else map_option ((#) e) (erase_less_k f es))"

text \<open>
  \<open>Evict\<close> returns the victim (\<open>None\<close> for \<^verbatim>\<open>false\<close>) and the new state. The young list is
  scanned from the back, then the mature list from the front.
\<close>

definition Evict :: "replacer \<Rightarrow> frame_id_t option \<times> replacer" where
  "Evict r =
     (if curr_size r = 0 then (None, r)
      else case find (evictable r) (rev (lru_less_k r)) of
        Some f \<Rightarrow>
          (Some f,
           r\<lparr>access_times := (access_times r)(f := 0),
             history_list := (history_list r)(f := []),
             lru_less_k := removeAll f (lru_less_k r),
             curr_size := curr_size r - 1\<rparr>)
      | None \<Rightarrow>
          (case find (\<lambda>e. evictable r (fst e)) (lru_k r) of
             Some e \<Rightarrow>
               (Some (fst e),
                r\<lparr>access_times := (access_times r)(fst e := 0),
                  history_list := (history_list r)(fst e := []),
                  lru_k := remove1 e (lru_k r),
                  curr_size := curr_size r - 1\<rparr>)
           | None \<Rightarrow> (None, r)))"

definition RecordAccess :: "replacer \<Rightarrow> frame_id_t \<Rightarrow> error + replacer" where
  "RecordAccess r frame_id =
     (if frame_id > to_int32 (replacer_size r) then Inl Exception
      else
        let r1 = r\<lparr>access_times := (access_times r)(frame_id := access_times r frame_id + 1),
                   current_timestamp := current_timestamp r + 1\<rparr>;
            r2 = r1\<lparr>history_list :=
                      (history_list r1)(frame_id := history_list r1 frame_id @ [current_timestamp r1])\<rparr>
        in
          if access_times r2 frame_id = 1 then
            (case (if curr_size r2 = max_size r2
                   then (case Evict r2 of (None, _) \<Rightarrow> Inl Exception | (Some _, r') \<Rightarrow> Inr r')
                   else Inr r2) of
               Inl e \<Rightarrow> Inl e
             | Inr r3 \<Rightarrow>
                 Inr (r3\<lparr>evictable := (evictable r3)(frame_id := True),
                         lru_less_k := frame_id # lru_less_k r3,
                         curr_size := curr_size r3 + 1\<rparr>))
          else if access_times r2 frame_id = k_value r2 then
            (case erase_less_k frame_id (lru_less_k r2) of
               None \<Rightarrow> Inl InvalidIterator
             | Some young \<Rightarrow>
                 (case history_list r2 frame_id of
                    [] \<Rightarrow> Inl InvalidIterator
                  | t # _ \<Rightarrow>
                      Inr (r2\<lparr>lru_less_k := young,
                              lru_k := upper_bound_insert (frame_id, t) (lru_k r2)\<rparr>)))
          else if access_times r2 frame_id > k_value r2 then
            (let h = tl ((history_list r2 frame_id) @ [current_timestamp r2]) in
             case erase_kth frame_id (lru_k r2) of
               None \<Rightarrow> Inl InvalidIterator
             | Some mature \<Rightarrow>
                 (case h of
                    [] \<Rightarrow> Inl InvalidIterator
                  | t # _ \<Rightarrow>
                      Inr (r2\<lparr>history_list := (history_list r2)(frame_id := h),
                              lru_k := upper_bound_insert (frame_id, t) mature\<rparr>)))
          else Inr r2)"

definition SetEvictable :: "replacer \<Rightarrow> frame_id_t \<Rightarrow> bool \<Rightarrow> error + replacer" where
  "SetEvictable r frame_id set_evictable =
     (if frame_id > to_int32 (replacer_size r) then Inl Exception
      else if access_times r frame_id = 0 then Inr r
      else
        let oldstatus = evictable r frame_id;
            r1 = r\<lparr>evictable := (evictable r)(frame_id := set_evictable)\<rparr>;
            r2 = (if oldstatus \<and> \<not> set_evictable
                  then r1\<lparr>curr_size := curr_size r1 - 1, max_size := max_size r1 - 1\<rparr>
                  else r1);
            r3 = (if \<not> oldstatus \<and> set_evictable
                  then r2\<lparr>curr_size := curr_size r2 + 1, max_size := max_size r2 + 1\<rparr>
                  else r2)
        in Inr r3)"

definition Replacer_Remove :: "replacer \<Rightarrow> frame_id_t \<Rightarrow> error + replacer" where
  "Replacer_Remove r frame_id =
     (if frame_id > to_int32 (replacer_size r) then Inl Exception
      else if access_times r frame_id = 0 then Inr r
      else if \<not> evictable r frame_id then Inl Exception
      else if access_times r frame_id < k_value r then
        (case erase_less_k frame_id (lru_less_k r) of
           None \<Rightarrow> Inl InvalidIterator
         | Some young \<Rightarrow>
             Inr (r\<lparr>access_times := (access_times r)(frame_id := 0),
                     history_list := (history_list r)(frame_id := []),
                     lru_less_k := young,
                     evictable := (evictable r)(frame_id := False),
                     curr_size := curr_size r - 1\<rparr>))
      else
        (case erase_kth frame_id (lru_k r) of
           None \<Rightarrow> Inl InvalidIterator
         | Some mature \<Rightarrow>
             Inr (r\<lparr>access_times := (access_times r)(frame_id := 0),
                     history_list := (history_list r)(frame_id := []),
                     lru_k := mature,
                     evictable := (evictable r)(frame_id := False),
                     curr_size := curr_size r - 1\<rparr>)))"

definition Size :: "replacer \<Rightarrow> size_t" where
  "Size r = curr_size r"

text \<open>
  A caller's sequence of public calls. Running it threads the replacer through the calls,
  stops at the first exception, and collects what each \<open>Evict\<close> returned.
\<close>

datatype replacer_call =
    CallRecordAccess frame_id_t
  | CallSetEvictable frame_id_t bool
  | CallRemove frame_id_t
  | CallEvict

fun replacer_step :: "replacer \<Rightarrow> replacer_call \<Rightarrow> error + (frame_id_t option list \<times> replacer)" where
  "replacer_step r (CallRecordAccess f) = map_sum id (Pair []) (RecordAccess r f)"
| "replacer_step r (CallSetEvictable f b) = map_sum id (Pair []) (SetEvictable r f b)"
| "replacer_step r (CallRemove f) = map_sum id (Pair []) (Replacer_Remove r f)"
| "replacer_step r CallEvict = Inr ([fst (Evict r)], snd (Evict r))"

fun replacer_run :: "replacer \<Rightarrow> replacer_call list \<Rightarrow> error + (frame_id_t option list \<times> replacer)" where
  "replacer_run r [] = Inr ([], r)"
| "replacer_run r (c # cs) =
     (case replacer_step r c of
        Inl e \<Rightarrow> Inl e
      | Inr (out, r') \<Rightarrow>
          (case replacer_run r' cs of
             Inl e \<Rightarrow> Inl e
           | Inr (outs, r'') \<Rightarrow> Inr (out @ outs, r'')))"

text \<open>What a run returned from its \<open>Evict\<close> calls, and a frame's history after it.\<close>

definition evicted :: "error + (frame_id_t option list \<times> replacer) \<Rightarrow> error + frame_id_t option list" where
  "evicted res = map_sum id fst res"

definition history_after :: "frame_id_t \<Rightarrow> error + (frame_id_t option list \<times> replacer) \<Rightarrow> error + size_t list" where
  "history_after f res = (case res of Inl e \<Rightarrow> Inl e | Inr (_, r) \<Rightarrow> Inr (history_list r f))"

definition max_size_after :: "error + (frame_id_t option list \<times> replacer) \<Rightarrow> error + size_t" where
  "max_size_after res = (case res of Inl e \<Rightarrow> Inl e | Inr (_, r) \<Rightarrow> Inr (max_size r))"

text \<open>The scenario of the replacer's basic test: \<open>N = 7\<close>, \<open>K = 2\<close>.\<close>

definition replacer_basic_calls :: "replacer_call list" where
  "replacer_basic_calls =
     map CallRecordAccess [1, 2, 3, 4, 5, 6, 1, 2, 3, 4, 5] @
     [CallSetEvictable 6 False, CallEvict, CallEvict]"

text \<open>The replacer after \<open>RecordAccess(1)\<close> on a fresh one with \<open>N = 7\<close>, \<open>K = 2\<close>.\<close>

definition tracked_frame_1 :: replacer where
  "tracked_frame_1 =
     \<lparr>replacer_size = 7, max_size = 7, k_value = 2, curr_size = 1,
      current_timestamp = 1, access_times = (\<lambda>_. 0)(1 := 1),
      history_list = (\<lambda>_. [])(1 := [1]), evictable = (\<lambda>_. False)(1 := True),
      lru_less_k = [1], lru_k = []\<rparr>"

section \<open>Extendible hash table (src/container/hash/extendible\_hash\_table.cpp)\<close>

text \<open>
  A bucket has its capacity (the member \<^verbatim>\<open>size_\<close>, here \<open>array_size\<close> after the
  constructor's parameter), its local depth and its list of pairs (the member \<^verbatim>\<open>list_\<close>,
  here \<open>items\<close> after its getter).

  The directory holds \<^verbatim>\<open>shared_ptr<Bucket>\<close>s, and several slots may point to one bucket, so
  the buckets live in a store (\<open>heap\<close>, a list that only grows) and the directory holds
  their positions in it. A bucket that no slot points to any more stays in the store and
  is never read again.

  \<^verbatim>\<open>std::hash<K>\<close> is the parameter \<open>h\<close> of every operation. Depths, sizes and hash values are
  natural numbers: \<^verbatim>\<open>1 << depth\<close> is the exact power of two as long as the depth is below
  31, which holds for every directory that fits in memory (it has \<open>2 ^ global_depth\<close> slots).
  Indexing the directory or the store out of range is undefined in the source and
  unspecified here; the results below are about tables where it does not happen.
\<close>

record ('k, 'v) bucket =
  array_size :: nat
  depth :: nat
  items :: "('k \<times> 'v) list"

definition Bucket :: "nat \<Rightarrow> nat \<Rightarrow> ('k, 'v) bucket" where
  "Bucket sz d = \<lparr>array_size = sz, depth = d, items = []\<rparr>"

text \<open>
  Modelled from the spec: \<open>IsFull\<close> is declared in the header, which is not among the
  sources; the spec calls a bucket full when its list has reached the bucket-size bound.
\<close>

definition IsFull :: "('k, 'v) bucket \<Rightarrow> bool" where
  "IsFull b = (length (items b) = array_size b)"

text \<open>
  The three loops over \<^verbatim>\<open>list_\<close>: each stops at the first pair whose key is the given one;
  \<open>None\<close> stands for reaching \<^verbatim>\<open>list_.end()\<close>.
\<close>

fun list_find :: "'k \<Rightarrow> ('k \<times> 'v) list \<Rightarrow> 'v option" where
  "list_find key [] = None"
| "list_find key (item # rest) = (if fst item = key then Some (snd item) else list_find key rest)"

fun list_erase :: "'k \<Rightarrow> ('k \<times> 'v) list \<Rightarrow> ('k \<times> 'v) list option" where
  "list_erase key [] = None"
| "list_erase key (item # rest) =
     (if fst item = key then Some rest else map_option ((#) item) (list_erase key rest))"

fun list_assign :: "'k \<Rightarrow> 'v \<Rightarrow> ('k \<times> 'v) list \<Rightarrow> ('k \<times> 'v) list option" where
  "list_assign key v [] = None"
| "list_assign key v (item # rest) =
     (if fst item = key then Some ((fst item, v) # rest)
      else map_option ((#) item) (list_assign key v rest))"

definition Bucket_Find :: "('k, 'v) bucket \<Rightarrow> 'k \<Rightarrow> 'v option" where
  "Bucket_Find b key = list_find key (items b)"

definition Bucket_Remove :: "('k, 'v) bucket \<Rightarrow> 'k \<Rightarrow> bool \<times> ('k, 'v) bucket" where
  "Bucket_Remove b key =
     (case list_erase key (items b) of
        None \<Rightarrow> (False, b)
      | Some l \<Rightarrow> (True, b\<lparr>items := l\<rparr>))"

definition Bucket_Insert :: "('k, 'v) bucket \<Rightarrow> 'k \<Rightarrow> 'v \<Rightarrow> bool \<times> ('k, 'v) bucket" where
  "Bucket_Insert b key v =
     (if IsFull b then (False, b)
      else case list_assign key v (items b) of
        None \<Rightarrow> (True, b\<lparr>items := (key, v) # items b\<rparr>)
      | Some l \<Rightarrow> (True, b\<lparr>items := l\<rparr>))"

text \<open>
  Modelled from the spec: the constructor names \<^verbatim>\<open>bucket_size_\<close> only, and the header with
  the members' initial values is not among the sources; the spec gives the initial global
  depth 0 and the initial bucket count 1.
\<close>

record ('k, 'v) hash_table =
  global_depth :: nat
  bucket_size :: nat
  num_buckets :: nat
  dir :: "nat list"
  heap :: "('k, 'v) bucket list"

definition ExtendibleHashTable :: "nat \<Rightarrow> ('k, 'v) hash_table" where
  "ExtendibleHashTable sz =
     \<lparr>global_depth = 0, bucket_size = sz, num_buckets = 1, dir = [0],
      heap = [Bucket sz 0]\<rparr>"

definition IndexOf :: "('k \<Rightarrow> nat) \<Rightarrow> ('k, 'v) hash_table \<Rightarrow> 'k \<Rightarrow> nat" where
  "IndexOf h t key = (let bitmask = push_bit (global_depth t) 1 - 1 in h key AND bitmask)"

definition GetGlobalDepth :: "('k, 'v) hash_table \<Rightarrow> nat" where
  "GetGlobalDepth t = global_depth t"

definition GetLocalDepth :: "('k, 'v) hash_table \<Rightarrow> nat \<Rightarrow> nat" where
  "GetLocalDepth t dir_index = depth (heap t ! (dir t ! dir_index))"

definition GetNumBuckets :: "('k, 'v) hash_table \<Rightarrow> nat" where
  "GetNumBuckets t = num_buckets t"

definition Find :: "('k \<Rightarrow> nat) \<Rightarrow> ('k, 'v) hash_table \<Rightarrow> 'k \<Rightarrow> 'v option" where
  "Find h t key = (let dir_index = IndexOf h t key in Bucket_Find (heap t ! (dir t ! dir_index)) key)"

definition HashTable_Remove :: "('k \<Rightarrow> nat) \<Rightarrow> ('k, 'v) hash_table \<Rightarrow> 'k \<Rightarrow> bool \<times> ('k, 'v) hash_table" where
  "HashTable_Remove h t key =
     (let dir_index = IndexOf h t key;
          p = dir t ! dir_index;
          (ok, b) = Bucket_Remove (heap t ! p) key
      in (ok, t\<lparr>heap := (heap t)[p := b]\<rparr>))"

text \<open>
  The second loop of \<open>RedistributeBucket\<close>, for a bucket of local depth \<open>d\<close> (so that
  \<^verbatim>\<open>mask\<close> is \<open>push_bit d 1\<close>): \<^verbatim>\<open>for (i = ...; i < dir_.size(); i += mask)\<close>.
\<close>

function repoint :: "nat \<Rightarrow> nat \<Rightarrow> nat \<Rightarrow> nat \<Rightarrow> nat list \<Rightarrow> nat list" where
  "repoint d bucket0 bucket1 i ds =
     (if i < length ds
      then repoint d bucket0 bucket1 (i + push_bit d 1)
             (ds[i := (if i AND push_bit d 1 \<noteq> 0 then bucket1 else bucket0)])
      else ds)"
  by pat_completeness auto
termination
  by (relation "measure (\<lambda>(d, b0, b1, i, ds). length ds - i)")
    (auto simp: push_bit_eq_mult intro!: diff_less_mono2)

declare repoint.simps [simp del]

text \<open>One round of its first loop: the pair goes to \<open>bucket1\<close> or to \<open>bucket0\<close>.\<close>

definition distribute ::
  "('k \<Rightarrow> nat) \<Rightarrow> nat \<Rightarrow> ('k, 'v) bucket \<times> ('k, 'v) bucket \<Rightarrow> 'k \<times> 'v \<Rightarrow> ('k, 'v) bucket \<times> ('k, 'v) bucket" where
  "distribute h bitmask bs item =
     (if h (fst item) AND bitmask \<noteq> 0
      then (fst bs, snd (Bucket_Insert (snd bs) (fst item) (snd item)))
      else (snd (Bucket_Insert (fst bs) (fst item) (snd item)), snd bs))"

definition RedistributeBucket ::
  "('k \<Rightarrow> nat) \<Rightarrow> ('k, 'v) hash_table \<Rightarrow> nat \<Rightarrow> nat \<Rightarrow> ('k, 'v) hash_table" where
  "RedistributeBucket h t p dir_index =
     (let bucket = heap t ! p;
          bitmask = push_bit (depth bucket) 1;
          bs = foldl (distribute h bitmask)
                 (Bucket (bucket_size t) (depth bucket + 1), Bucket (bucket_size t) (depth bucket + 1))
                 (items bucket);
          bucket0 = length (heap t);
          bucket1 = length (heap t) + 1
      in t\<lparr>num_buckets := num_buckets t + 1,
           heap := heap t @ [fst bs, snd bs],
           dir := repoint (depth bucket) bucket0 bucket1 (dir_index AND (bitmask - 1)) (dir t)\<rparr>)"

text \<open>The directory doubling inside the loop of \<open>Insert\<close>.\<close>

definition grow :: "('k, 'v) hash_table \<Rightarrow> nat \<Rightarrow> ('k, 'v) hash_table" where
  "grow t dir_index =
     (if depth (heap t ! (dir t ! dir_index)) = global_depth t
      then t\<lparr>dir := dir t @ dir t, global_depth := global_depth t + 1\<rparr>
      else t)"

text \<open>
  \<open>Insert\<close> is a \<^verbatim>\<open>while\<close> loop with no bound on its rounds, so it is a partial function:
  \<open>None\<close> is the loop never ending.
\<close>

partial_function (option) HashTable_Insert ::
  "('k \<Rightarrow> nat) \<Rightarrow> ('k, 'v) hash_table \<Rightarrow> 'k \<Rightarrow> 'v \<Rightarrow> ('k, 'v) hash_table option" where
  "HashTable_Insert h t key v =
     (let p = dir t ! IndexOf h t key;
          res = Bucket_Insert (heap t ! p) key v
      in if fst res then Some (t\<lparr>heap := (heap t)[p := snd res]\<rparr>)
         else
           let dir_index = IndexOf h t key;
               t1 = grow t dir_index
           in HashTable_Insert h (RedistributeBucket h t1 (dir t1 ! dir_index) dir_index) key v)"

declare HashTable_Insert.simps [code]

text \<open>A caller's sequence of the two mutating public calls; the others leave the table as it is.\<close>

datatype ('k, 'v) table_call = TableInsert 'k 'v | TableRemove 'k

fun table_run :: "('k \<Rightarrow> nat) \<Rightarrow> ('k, 'v) hash_table \<Rightarrow> ('k, 'v) table_call list \<Rightarrow> ('k, 'v) hash_table option" where
  "table_run h t [] = Some t"
| "table_run h t (TableInsert key v # cs) =
     (case HashTable_Insert h t key v of None \<Rightarrow> None | Some t' \<Rightarrow> table_run h t' cs)"
| "table_run h t (TableRemove key # cs) = table_run h (snd (HashTable_Remove h t key)) cs"


text \<open>The scenario of the split test: bucket size 2 and the identity as hash function.\<close>

definition hash_split_calls :: "(nat, string) table_call list" where
  "hash_split_calls = [TableInsert 4 ''a'', TableInsert 12 ''b'', TableInsert 20 ''c'']"

definition depth_and_buckets :: "('k, 'v) hash_table option \<Rightarrow> (nat \<times> nat) option" where
  "depth_and_buckets res = map_option (\<lambda>t. (GetGlobalDepth t, GetNumBuckets t)) res"

text \<open>
  The directory invariants: the directory has \<open>2 ^ global_depth\<close> slots; every slot
  points into the store, to a bucket whose local depth is at most the global depth; two
  slots point to the same bucket exactly when they agree on the low \<open>L\<close> bits, \<open>L\<close> being
  the bucket's local depth; and every key in the bucket of slot \<open>i\<close> has a hash value that
  agrees with \<open>i\<close> on the low \<open>L\<close> bits.
\<close>

definition directory_ok :: "('k \<Rightarrow> nat) \<Rightarrow> ('k, 'v) hash_table \<Rightarrow> bool" where
  "directory_ok h t \<longleftrightarrow>
     length (dir t) = 2 ^ global_depth t \<and>
     (\<forall>i < length (dir t). dir t ! i < length (heap t) \<and> GetLocalDepth t i \<le> global_depth t) \<and>
     (\<forall>i < length (dir t). \<forall>j < length (dir t).
        (dir t ! i = dir t ! j) = (i mod 2 ^ GetLocalDepth t i = j mod 2 ^ GetLocalDepth t i)) \<and>
     (\<forall>i < length (dir t). \<forall>k \<in> fst ` set (items (heap t ! (dir t ! i))).
        h k mod 2 ^ GetLocalDepth t i = i mod 2 ^ GetLocalDepth t i)"

text \<open>One round of the loop of \<open>Insert\<close> after a refused bucket insert: grow, then split.\<close>

definition split_round :: "('k \<Rightarrow> nat) \<Rightarrow> ('k, 'v) hash_table \<Rightarrow> 'k \<Rightarrow> ('k, 'v) hash_table" where
  "split_round h t key =
     (let dir_index = IndexOf h t key; t1 = grow t dir_index
      in RedistributeBucket h t1 (dir t1 ! dir_index) dir_index)"

text \<open>The table that the split scenario ends in.\<close>

definition hash_split_table :: "(nat, string) hash_table" where
  "hash_split_table = the (table_run id (ExtendibleHashTable 2) hash_split_calls)"

text \<open>
  A table whose buckets have capacity one and in which the bucket of \<open>key\<close>'s slot holds
  exactly \<open>key\<close>: the state after \<open>key\<close> was inserted into such a table.
\<close>

definition full_of_key :: "('k \<Rightarrow> nat) \<Rightarrow> ('k, 'v) hash_table \<Rightarrow> 'k \<Rightarrow> bool" where
  "full_of_key h t key \<longleftrightarrow>
     directory_ok h t \<and> bucket_size t = 1 \<and>
     array_size (heap t ! (dir t ! IndexOf h t key)) = 1 \<and>
     map fst (items (heap t ! (dir t ! IndexOf h t key))) = [key]"

section \<open>B+-tree index (src/storage/index/b\_plus\_tree.cpp, index\_iterator.cpp)\<close>

text \<open>
  The page classes, the buffer-pool manager and the configuration constants are not
  among the sources; what the tree uses of them is modelled from the spec, each part
  under a note that says so. Page ids are integers.
\<close>

type_synonym page_id_t = int

text \<open>
  Modelled from the spec: \<open>INVALID_PAGE_ID\<close>, the sentinel page id of an empty tree, of a
  root's parent and of the last leaf's successor; it names no page.
\<close>

definition INVALID_PAGE_ID :: page_id_t where
  "INVALID_PAGE_ID = - 1"

text \<open>
  Modelled from the spec: a page is its header (page id, parent page id, kind, current
  size, max size), the next-leaf page id of a leaf, and its array of pairs, of which the
  first \<open>size\<close> are its entries. The kind says which of the two arrays is the page's;
  \<open>IsLeafPage\<close> and \<open>IsInternalPage\<close> test it.
\<close>

datatype IndexPageType = INVALID_INDEX_PAGE | LEAF_PAGE | INTERNAL_PAGE

record ('k, 'v) tree_page =
  page_type :: IndexPageType
  page_size :: int
  page_max_size :: int
  parent_page_id :: page_id_t
  page_id :: page_id_t
  next_page_id :: page_id_t
  leaf_array :: "('k \<times> 'v) list"
  internal_array :: "('k \<times> page_id_t) list"

definition IsLeafPage :: "('k, 'v) tree_page \<Rightarrow> bool" where
  "IsLeafPage pg = (page_type pg = LEAF_PAGE)"

definition IsInternalPage :: "('k, 'v) tree_page \<Rightarrow> bool" where
  "IsInternalPage pg = (page_type pg = INTERNAL_PAGE)"

text \<open>
  Modelled from the spec: the leaf's \<^verbatim>\<open>Find(key, comparator, value)\<close> searches the leaf's
  entries for equality under the comparator.
\<close>

definition Leaf_Find :: "('k, 'v) tree_page \<Rightarrow> 'k \<Rightarrow> ('k \<Rightarrow> 'k \<Rightarrow> int) \<Rightarrow> 'v option" where
  "Leaf_Find pg key cmp =
     map_option snd (find (\<lambda>e. cmp (fst e) key = 0) (take (nat (page_size pg)) (leaf_array pg)))"

text \<open>
  Modelled from the spec: the internal page's \<^verbatim>\<open>Find(key, comparator)\<close> takes the largest
  slot \<open>j\<close> in \<open>[1..size-1]\<close> whose key is at most the probe, or slot 0 if there is none,
  and returns the child page id stored there. A slot beyond the array is \<open>OutOfBounds\<close>.
\<close>

definition Internal_Find :: "('k, 'v) tree_page \<Rightarrow> 'k \<Rightarrow> ('k \<Rightarrow> 'k \<Rightarrow> int) \<Rightarrow> error + page_id_t" where
  "Internal_Find pg key cmp =
     (let js = filter (\<lambda>j. cmp (fst (internal_array pg ! j)) key \<le> 0)
                 [1 ..< min (nat (page_size pg)) (length (internal_array pg))];
          j = (if js = [] then 0 else last js)
      in if j < length (internal_array pg) then Inr (snd (internal_array pg ! j))
         else Inl OutOfBounds)"

text \<open>Modelled from the spec: \<open>ValueAt(i)\<close> is the child page id in slot \<open>i\<close> of an internal page.\<close>

definition ValueAt :: "('k, 'v) tree_page \<Rightarrow> nat \<Rightarrow> error + page_id_t" where
  "ValueAt pg i =
     (if i < length (internal_array pg) then Inr (snd (internal_array pg ! i)) else Inl OutOfBounds)"

text \<open>
  Modelled from the spec: the buffer-pool contract. \<open>FetchPage\<close> returns the page pinned
  (one more pin on it); for a page id that names no page there is no frame to return and
  the result is the null pointer, \<open>None\<close>. \<open>UnpinPage\<close> takes one pin off a pinned page and
  records the dirty flag; on a page that is not pinned it changes nothing. A pointer to a
  fetched page is the page id it was fetched under.
\<close>

record ('k, 'v) buffer_pool =
  pages :: "page_id_t \<Rightarrow> ('k, 'v) tree_page option"
  pin_count :: "page_id_t \<Rightarrow> nat"
  is_dirty :: "page_id_t \<Rightarrow> bool"

definition FetchPage :: "('k, 'v) buffer_pool \<Rightarrow> page_id_t \<Rightarrow> ('k, 'v) buffer_pool option" where
  "FetchPage bp p =
     (case pages bp p of
        None \<Rightarrow> None
      | Some _ \<Rightarrow> Some (bp\<lparr>pin_count := (pin_count bp)(p := pin_count bp p + 1)\<rparr>))"

definition UnpinPage :: "('k, 'v) buffer_pool \<Rightarrow> page_id_t \<Rightarrow> bool \<Rightarrow> ('k, 'v) buffer_pool" where
  "UnpinPage bp p dirty =
     (if pin_count bp p = 0 then bp
      else bp\<lparr>pin_count := (pin_count bp)(p := pin_count bp p - 1),
              is_dirty := (is_dirty bp)(p := is_dirty bp p \<or> dirty)\<rparr>)"

text \<open>
  The tree object: the members the constructor sets, and the item count \<^verbatim>\<open>cur_size_\<close>
  (modelled from the spec: declared in the header, an item count that starts at 0).
\<close>

record 'k bplus_tree =
  root_page_id :: page_id_t
  comparator :: "'k \<Rightarrow> 'k \<Rightarrow> int"
  leaf_max_size :: int
  internal_max_size :: int
  cur_size :: int

definition BPlusTree :: "('k \<Rightarrow> 'k \<Rightarrow> int) \<Rightarrow> int \<Rightarrow> int \<Rightarrow> 'k bplus_tree" where
  "BPlusTree cmp leaf_max internal_max =
     \<lparr>root_page_id = INVALID_PAGE_ID, comparator = cmp, leaf_max_size = leaf_max,
      internal_max_size = internal_max, cur_size = 0\<rparr>"

definition GetRootPageId :: "'k bplus_tree \<Rightarrow> page_id_t" where
  "GetRootPageId tree = root_page_id tree"

text \<open>
  The loop \<^verbatim>\<open>while(!tmp_page->IsLeafPage())\<close>, which \<open>GetValue\<close>, \<open>TreeTraversal\<close> and
  \<open>Begin(key)\<close> each contain in the same words. It follows page ids found in pages, so it
  need not end: \<open>None\<close> is the loop running forever. It returns the leaf, still pinned.
\<close>

partial_function (option) descend_to_leaf ::
  "'k bplus_tree \<Rightarrow> 'k \<Rightarrow> page_id_t \<Rightarrow> ('k, 'v) buffer_pool
     \<Rightarrow> (error + page_id_t \<times> ('k, 'v) buffer_pool) option" where
  "descend_to_leaf tree key tmp_page bp =
     (case pages bp tmp_page of
        None \<Rightarrow> Some (Inl NullPointer)
      | Some pg \<Rightarrow>
          if IsLeafPage pg then Some (Inr (tmp_page, bp))
          else
            (case Internal_Find pg key (comparator tree) of
               Inl e \<Rightarrow> Some (Inl e)
             | Inr v \<Rightarrow>
                 (case FetchPage bp v of
                    None \<Rightarrow> Some (Inl NullPointer)
                  | Some bp1 \<Rightarrow> descend_to_leaf tree key v (UnpinPage bp1 (page_id pg) False))))"

declare descend_to_leaf.simps [code]

text \<open>\<open>GetValue\<close> returns the value found (\<open>None\<close> for \<^verbatim>\<open>false\<close>) and the pool.\<close>

definition GetValue ::
  "'k bplus_tree \<Rightarrow> ('k, 'v) buffer_pool \<Rightarrow> 'k
     \<Rightarrow> (error + 'v option \<times> ('k, 'v) buffer_pool) option" where
  "GetValue tree bp key =
     (case FetchPage bp (GetRootPageId tree) of
        None \<Rightarrow> Some (Inl NullPointer)
      | Some bp1 \<Rightarrow>
          (case descend_to_leaf tree key (GetRootPageId tree) bp1 of
             None \<Rightarrow> None
           | Some (Inl e) \<Rightarrow> Some (Inl e)
           | Some (Inr (leaf, bp2)) \<Rightarrow>
               (case pages bp2 leaf of
                  None \<Rightarrow> Some (Inl NullPointer)
                | Some leaf_page \<Rightarrow>
                    (case Leaf_Find leaf_page key (comparator tree) of
                       None \<Rightarrow> Some (Inr (None, UnpinPage bp2 (page_id leaf_page) False))
                     | Some v \<Rightarrow> Some (Inr (Some v, UnpinPage bp2 (page_id leaf_page) False))))))"

text \<open>
  \<open>TreeTraversal\<close> returns \<^verbatim>\<open>true\<close> when the key is absent, and the leaf through \<^verbatim>\<open>*bPage\<close>; it
  does not unpin the leaf.
\<close>

definition TreeTraversal ::
  "'k bplus_tree \<Rightarrow> ('k, 'v) buffer_pool \<Rightarrow> 'k
     \<Rightarrow> (error + bool \<times> page_id_t \<times> ('k, 'v) buffer_pool) option" where
  "TreeTraversal tree bp key =
     (case FetchPage bp (GetRootPageId tree) of
        None \<Rightarrow> Some (Inl NullPointer)
      | Some bp1 \<Rightarrow>
          (case descend_to_leaf tree key (GetRootPageId tree) bp1 of
             None \<Rightarrow> None
           | Some (Inl e) \<Rightarrow> Some (Inl e)
           | Some (Inr (leaf, bp2)) \<Rightarrow>
               (case pages bp2 leaf of
                  None \<Rightarrow> Some (Inl NullPointer)
                | Some leaf_page \<Rightarrow>
                    (case Leaf_Find leaf_page key (comparator tree) of
                       Some v \<Rightarrow> Some (Inr (False, leaf, bp2))
                     | None \<Rightarrow> Some (Inr (True, leaf, bp2))))))"

text \<open>\<open>Remove\<close>: both branches of its \<^verbatim>\<open>if\<close> on what \<open>TreeTraversal\<close> returned are empty.\<close>

definition BPlusTree_Remove ::
  "'k bplus_tree \<Rightarrow> ('k, 'v) buffer_pool \<Rightarrow> 'k
     \<Rightarrow> (error + 'k bplus_tree \<times> ('k, 'v) buffer_pool) option" where
  "BPlusTree_Remove tree bp key =
     (if GetRootPageId tree = INVALID_PAGE_ID then Some (Inr (tree, bp))
      else
        (case TreeTraversal tree bp key of
           None \<Rightarrow> None
         | Some (Inl e) \<Rightarrow> Some (Inl e)
         | Some (Inr (absent, bPage, bp1)) \<Rightarrow>
             if absent then Some (Inr (tree, bp1)) else Some (Inr (tree, bp1))))"

subsection \<open>The range iterator\<close>

text \<open>
  The iterator's members \<^verbatim>\<open>page_id_\<close>, \<^verbatim>\<open>page_\<close> (a pointer into the pool, \<open>None\<close> for
  \<^verbatim>\<open>nullptr\<close>) and \<^verbatim>\<open>index_in_page_\<close>. Its operations read and pin pages, so they take the
  pool and, where they change it, return it.
\<close>

record iterator =
  it_page_id :: page_id_t
  it_page :: "page_id_t option"
  index_in_page :: int

definition IndexIterator ::
  "('k, 'v) buffer_pool \<Rightarrow> page_id_t \<Rightarrow> int \<Rightarrow> error + iterator \<times> ('k, 'v) buffer_pool" where
  "IndexIterator bp pid idx =
     (if pid \<noteq> INVALID_PAGE_ID then
        (case FetchPage bp pid of
           None \<Rightarrow> Inl NullPointer
         | Some bp1 \<Rightarrow> Inr (\<lparr>it_page_id = pid, it_page = Some pid, index_in_page = idx\<rparr>, bp1))
      else Inr (\<lparr>it_page_id = pid, it_page = None, index_in_page = idx\<rparr>, bp))"

definition destroy_iterator :: "('k, 'v) buffer_pool \<Rightarrow> iterator \<Rightarrow> ('k, 'v) buffer_pool" where
  "destroy_iterator bp it = UnpinPage bp (it_page_id it) True"

definition IsEnd :: "('k, 'v) buffer_pool \<Rightarrow> iterator \<Rightarrow> error + bool" where
  "IsEnd bp it =
     (case it_page it of
        None \<Rightarrow> Inl NullPointer
      | Some p \<Rightarrow>
          (case pages bp p of
             None \<Rightarrow> Inl NullPointer
           | Some pg \<Rightarrow>
               Inr (index_in_page it = page_size pg - 1 \<and> next_page_id pg = INVALID_PAGE_ID)))"

definition dereference :: "('k, 'v) buffer_pool \<Rightarrow> iterator \<Rightarrow> error + ('k \<times> 'v)" where
  "dereference bp it =
     (case it_page it of
        None \<Rightarrow> Inl NullPointer
      | Some p \<Rightarrow>
          (case pages bp p of
             None \<Rightarrow> Inl NullPointer
           | Some pg \<Rightarrow>
               if 0 \<le> index_in_page it \<and> nat (index_in_page it) < length (leaf_array pg)
               then Inr (leaf_array pg ! nat (index_in_page it))
               else Inl OutOfBounds))"

definition increment ::
  "('k, 'v) buffer_pool \<Rightarrow> iterator \<Rightarrow> error + iterator \<times> ('k, 'v) buffer_pool" where
  "increment bp it =
     (if it_page_id it = INVALID_PAGE_ID then Inr (it, bp)
      else
        (case it_page it of
           None \<Rightarrow> Inl NullPointer
         | Some p \<Rightarrow>
             (case pages bp p of
                None \<Rightarrow> Inl NullPointer
              | Some pg \<Rightarrow>
                  if index_in_page it < page_size pg - 1
                  then Inr (it\<lparr>index_in_page := index_in_page it + 1\<rparr>, bp)
                  else
                    let pre_page_id = it_page_id it;
                        nxt = next_page_id pg
                    in if nxt = INVALID_PAGE_ID
                       then Inr (\<lparr>it_page_id = nxt, it_page = None, index_in_page = - 1\<rparr>,
                                 UnpinPage bp pre_page_id False)
                       else
                         (case FetchPage bp nxt of
                            None \<Rightarrow> Inl NullPointer
                          | Some bp1 \<Rightarrow>
                              Inr (\<lparr>it_page_id = nxt, it_page = Some nxt, index_in_page = 0\<rparr>,
                                   UnpinPage bp1 pre_page_id False)))))"

definition iterator_eq :: "iterator \<Rightarrow> iterator \<Rightarrow> bool" where
  "iterator_eq a b = (it_page_id a = it_page_id b \<and> index_in_page a = index_in_page b)"

text \<open>The loop of \<open>Begin()\<close>, down the leftmost children; it too leaves the leaf pinned.\<close>

partial_function (option) descend_leftmost ::
  "page_id_t \<Rightarrow> ('k, 'v) buffer_pool \<Rightarrow> (error + page_id_t \<times> ('k, 'v) buffer_pool) option" where
  "descend_leftmost tmp_page bp =
     (case pages bp tmp_page of
        None \<Rightarrow> Some (Inl NullPointer)
      | Some pg \<Rightarrow>
          if IsInternalPage pg then
            (case ValueAt pg 0 of
               Inl e \<Rightarrow> Some (Inl e)
             | Inr child \<Rightarrow>
                 (case FetchPage bp child of
                    None \<Rightarrow> Some (Inl NullPointer)
                  | Some bp1 \<Rightarrow> descend_leftmost child (UnpinPage bp1 (page_id pg) False)))
          else Some (Inr (tmp_page, bp)))"

declare descend_leftmost.simps [code]

definition Begin ::
  "'k bplus_tree \<Rightarrow> ('k, 'v) buffer_pool \<Rightarrow> (error + iterator \<times> ('k, 'v) buffer_pool) option" where
  "Begin tree bp =
     (case FetchPage bp (GetRootPageId tree) of
        None \<Rightarrow> Some (Inl NullPointer)
      | Some bp1 \<Rightarrow>
          (case descend_leftmost (GetRootPageId tree) bp1 of
             None \<Rightarrow> None
           | Some (Inl e) \<Rightarrow> Some (Inl e)
           | Some (Inr (leaf, bp2)) \<Rightarrow>
               (case pages bp2 leaf of
                  None \<Rightarrow> Some (Inl NullPointer)
                | Some leaf_page \<Rightarrow> Some (IndexIterator bp2 (page_id leaf_page) 0))))"

definition Begin_key ::
  "'k bplus_tree \<Rightarrow> ('k, 'v) buffer_pool \<Rightarrow> 'k
     \<Rightarrow> (error + iterator \<times> ('k, 'v) buffer_pool) option" where
  "Begin_key tree bp key =
     (case FetchPage bp (GetRootPageId tree) of
        None \<Rightarrow> Some (Inl NullPointer)
      | Some bp1 \<Rightarrow>
          (case descend_to_leaf tree key (GetRootPageId tree) bp1 of
             None \<Rightarrow> None
           | Some (Inl e) \<Rightarrow> Some (Inl e)
           | Some (Inr (leaf, bp2)) \<Rightarrow>
               (case pages bp2 leaf of
                  None \<Rightarrow> Some (Inl NullPointer)
                | Some leaf_page \<Rightarrow>
                    let idx = length (takeWhile (\<lambda>e. comparator tree (fst e) key < 0)
                                (take (nat (page_size leaf_page)) (leaf_array leaf_page)))
                    in Some (IndexIterator bp2 (page_id leaf_page) (int idx)))))"

definition End :: "('k, 'v) buffer_pool \<Rightarrow> error + iterator \<times> ('k, 'v) buffer_pool" where
  "End bp = IndexIterator bp INVALID_PAGE_ID (- 1)"

text \<open>The iterator that \<open>End()\<close> builds.\<close>

definition end_iterator :: iterator where
  "end_iterator = \<lparr>it_page_id = INVALID_PAGE_ID, it_page = None, index_in_page = - 1\<rparr>"

text \<open>
  A complete iteration, \<^verbatim>\<open>for (it = Begin(); it != End(); ++it)\<close>, with the destructors of
  the \<open>End()\<close> temporary of every comparison and, at the end, of \<open>it\<close>.
\<close>

partial_function (option) advance_to_end ::
  "('k, 'v) buffer_pool \<Rightarrow> iterator \<Rightarrow> (error + iterator \<times> ('k, 'v) buffer_pool) option" where
  "advance_to_end bp it =
     (case End bp of
        Inl e \<Rightarrow> Some (Inl e)
      | Inr (e, bp1) \<Rightarrow>
          let bp2 = destroy_iterator bp1 e in
          if iterator_eq it e then Some (Inr (it, bp2))
          else
            (case increment bp2 it of
               Inl err \<Rightarrow> Some (Inl err)
             | Inr (it', bp3) \<Rightarrow> advance_to_end bp3 it'))"

declare advance_to_end.simps [code]

definition full_iteration ::
  "'k bplus_tree \<Rightarrow> ('k, 'v) buffer_pool \<Rightarrow> (error + ('k, 'v) buffer_pool) option" where
  "full_iteration tree bp =
     (case Begin tree bp of
        None \<Rightarrow> None
      | Some (Inl e) \<Rightarrow> Some (Inl e)
      | Some (Inr (it, bp1)) \<Rightarrow>
          (case advance_to_end bp1 it of
             None \<Rightarrow> None
           | Some (Inl e) \<Rightarrow> Some (Inl e)
           | Some (Inr (it', bp2)) \<Rightarrow> Some (Inr (destroy_iterator bp2 it'))))"

text \<open>
  A tree of one leaf holding the key 1, as \<open>Insert(1, a)\<close> leaves a fresh tree with leaf
  fanout 4 when the pool hands out page 1: the root is that leaf, nothing is pinned.
\<close>

definition int_comparator :: "int \<Rightarrow> int \<Rightarrow> int" where
  "int_comparator a b = (if a < b then - 1 else if b < a then 1 else 0)"

definition one_key_leaf :: "(int, string) tree_page" where
  "one_key_leaf =
     \<lparr>page_type = LEAF_PAGE, page_size = 1, page_max_size = 4,
      parent_page_id = INVALID_PAGE_ID, page_id = 1, next_page_id = INVALID_PAGE_ID,
      leaf_array = [(1, ''a'')], internal_array = []\<rparr>"

definition one_key_pool :: "(int, string) buffer_pool" where
  "one_key_pool =
     \<lparr>pages = Map.empty(1 \<mapsto> one_key_leaf), pin_count = (\<lambda>_. 0), is_dirty = (\<lambda>_. False)\<rparr>"

definition one_key_tree :: "int bplus_tree" where
  "one_key_tree = (BPlusTree int_comparator 4 4)\<lparr>root_page_id := 1, cur_size := 1\<rparr>"

text \<open>A pool that holds no page at all.\<close>

definition empty_pool :: "('k, 'v) buffer_pool" where
  "empty_pool = \<lparr>pages = Map.empty, pin_count = (\<lambda>_. 0), is_dirty = (\<lambda>_. False)\<rparr>"

text \<open>What is observed after an operation: a page's pin count, the item count, a lookup.\<close>

definition pins_after ::
  "page_id_t \<Rightarrow> (error + 'a \<times> ('k, 'v) buffer_pool) option \<Rightarrow> (error + nat) option" where
  "pins_after p res = map_option (map_sum id (\<lambda>r. pin_count (snd r) p)) res"

definition cur_size_after ::
  "(error + 'k bplus_tree \<times> ('k, 'v) buffer_pool) option \<Rightarrow> (error + int) option" where
  "cur_size_after res = map_option (map_sum id (\<lambda>r. cur_size (fst r))) res"

definition GetValue_after ::
  "(error + 'k bplus_tree \<times> ('k, 'v) buffer_pool) option \<Rightarrow> 'k \<Rightarrow> (error + 'v option) option" where
  "GetValue_after res key =
     (case res of
        None \<Rightarrow> None
      | Some (Inl e) \<Rightarrow> Some (Inl e)
      | Some (Inr (tree, bp)) \<Rightarrow> map_option (map_sum id fst) (GetValue tree bp key))"

definition found :: "(error + 'v option \<times> ('k, 'v) buffer_pool) option \<Rightarrow> (error + 'v option) option" where
  "found res = map_option (map_sum id fst) res"

text \<open>An iterator on the only entry of that leaf.\<close>

definition first_entry_iterator :: iterator where
  "first_entry_iterator = \<lparr>it_page_id = 1, it_page = Some 1, index_in_page = 0\<rparr>"

definition pins_left :: "page_id_t \<Rightarrow> (error + ('k, 'v) buffer_pool) option \<Rightarrow> (error + nat) option" where
  "pins_left p res = map_option (map_sum id (\<lambda>bp. pin_count bp p)) res"

section \<open>Replacer: results\<close>

lemma to_int32_7: "to_int32 7 = 7"
  by (simp add: to_int32_def)

lemma RecordAccess_fresh_1: "RecordAccess (LRUKReplacer 7 2) 1 = Inr tracked_frame_1"
  by (simp add: RecordAccess_def LRUKReplacer_def tracked_frame_1_def to_int32_7 Let_def)

text \<open>
  C9 (as stated): after the accesses \<open>1,2,3,4,5,6,1,2,3,4,5\<close> and \<open>SetEvictable(6, false)\<close>
  on a replacer with \<open>N = 7\<close>, \<open>K = 2\<close>, the first \<open>Evict\<close> returns frame 5 and the next
  returns frame 1. The code does not do that: frame 5 has been accessed twice and sits in
  the mature list behind frames 1 to 4, and the only young frame, 6, is not evictable.
\<close>

theorem replacer_basic_not_5_then_1:
  "evicted (replacer_run (LRUKReplacer 7 2) replacer_basic_calls) \<noteq> Inr [Some 5, Some 1]"
  by code_simp

text \<open>
  C9 (amended): in that scenario the first \<open>Evict\<close> succeeds and returns frame 1, the mature
  frame with the smallest stored timestamp, and the next \<open>Evict\<close> returns frame 2.
\<close>

theorem replacer_basic_evicts_1_then_2:
  "evicted (replacer_run (LRUKReplacer 7 2) replacer_basic_calls) = Inr [Some 1, Some 2]"
  by code_simp

text \<open>
  C7: after every \<open>RecordAccess\<close> the frame's history holds at most \<open>K\<close> timestamps, the
  \<open>K\<close> most recent ones. The code appends the timestamp a second time on every access
  beyond the \<open>K\<close>-th and drops one entry, so the history grows by one per access: with
  \<open>K = 2\<close>, five accesses of frame 1 (at times 1 to 5) leave five entries, and the earliest
  one is 3 where the second most recent access is 4.
\<close>

theorem history_not_capped_at_k:
  "history_after 1 (replacer_run (LRUKReplacer 7 2) (map CallRecordAccess [1, 1, 1, 1, 1]))
     = Inr [3, 4, 4, 5, 5]"
  by code_simp

text \<open>
  C6 (as stated): \<open>SetEvictable\<close> changes only the frame's flag and the evictable count, and
  leaves the capacity alone. The code also moves \<open>max_size\<close>, the bound that \<open>RecordAccess\<close>
  compares the count with to decide whether a new frame needs an eviction: it is 7 after
  construction and 6 once the tracked frame 1 is made non-evictable.
\<close>

theorem SetEvictable_moves_max_size:
  "max_size_after (replacer_run (LRUKReplacer 7 2) [CallRecordAccess 1]) = Inr 7 \<and>
   max_size_after (replacer_run (LRUKReplacer 7 2) [CallRecordAccess 1, CallSetEvictable 1 False])
     = Inr 6"
  by code_simp

text \<open>
  C6 (amended): for a tracked frame within the frame-id bound, \<open>SetEvictable(frame, flag)\<close>
  sets that frame's evictable flag and moves \<open>curr_size\<close> and \<open>max_size\<close> together: both
  down by one when the frame was evictable and \<open>flag\<close> is false, both up by one when it was
  not and \<open>flag\<close> is true, both unchanged otherwise. Every other member is unchanged, among
  them \<open>replacer_size\<close>, the number of frame slots given to the constructor.
\<close>

theorem SetEvictable_frame:
  assumes "f \<le> to_int32 (replacer_size r)" and "access_times r f \<noteq> 0"
  shows "\<exists>r'. SetEvictable r f b = Inr r' \<and>
           evictable r' = (evictable r)(f := b) \<and>
           curr_size r' = curr_size r +
             (if evictable r f \<and> \<not> b then - 1 else if \<not> evictable r f \<and> b then 1 else 0) \<and>
           max_size r' = max_size r +
             (if evictable r f \<and> \<not> b then - 1 else if \<not> evictable r f \<and> b then 1 else 0) \<and>
           replacer_size r' = replacer_size r \<and> k_value r' = k_value r \<and>
           current_timestamp r' = current_timestamp r \<and>
           access_times r' = access_times r \<and> history_list r' = history_list r \<and>
           lru_less_k r' = lru_less_k r \<and> lru_k r' = lru_k r"
  using assms by (simp add: SetEvictable_def Let_def)

theorem SetEvictable_frame_witness:
  "1 \<le> to_int32 (replacer_size tracked_frame_1) \<and> access_times tracked_frame_1 1 \<noteq> 0 \<and>
   (\<exists>r'. SetEvictable tracked_frame_1 1 False = Inr r' \<and>
      evictable r' 1 = False \<and> curr_size r' = 0 \<and> max_size r' = 6 \<and> replacer_size r' = 7 \<and>
      lru_less_k r' = [1])"
proof -
  have h1: "1 \<le> to_int32 (replacer_size tracked_frame_1)"
    by (simp add: tracked_frame_1_def to_int32_7)
  have h2: "access_times tracked_frame_1 1 \<noteq> 0"
    by (simp add: tracked_frame_1_def)
  from SetEvictable_frame [OF h1 h2, of False] obtain r' where
    r': "SetEvictable tracked_frame_1 1 False = Inr r'"
      "evictable r' = (evictable tracked_frame_1)(1 := False)"
      "curr_size r' = curr_size tracked_frame_1 +
         (if evictable tracked_frame_1 1 \<and> \<not> False then - 1
          else if \<not> evictable tracked_frame_1 1 \<and> False then 1 else 0)"
      "max_size r' = max_size tracked_frame_1 +
         (if evictable tracked_frame_1 1 \<and> \<not> False then - 1
          else if \<not> evictable tracked_frame_1 1 \<and> False then 1 else 0)"
      "replacer_size r' = replacer_size tracked_frame_1"
      "lru_less_k r' = lru_less_k tracked_frame_1"
    by blast
  have "evictable r' 1 = False" using r'(2) by simp
  moreover have "curr_size r' = 0" using r'(3) by (simp add: tracked_frame_1_def)
  moreover have "max_size r' = 6" using r'(4) by (simp add: tracked_frame_1_def)
  moreover have "replacer_size r' = 7" using r'(5) by (simp add: tracked_frame_1_def)
  moreover have "lru_less_k r' = [1]" using r'(6) by (simp add: tracked_frame_1_def)
  ultimately show ?thesis using h1 h2 r'(1) by blast
qed

section \<open>Hash table: results\<close>

lemma and_low_mask: "(x::nat) AND (push_bit d 1 - 1) = x mod 2 ^ d"
proof -
  have "push_bit d (1::nat) - 1 = mask d"
    by (simp add: mask_eq_exp_minus_1 push_bit_eq_mult)
  then show ?thesis
    by (simp only: take_bit_eq_mask [symmetric] take_bit_eq_mod)
qed

lemma and_low_mask': "(x::nat) AND (2 ^ d - Suc 0) = x mod 2 ^ d"
  using and_low_mask [of x d] by (simp add: push_bit_eq_mult)

lemma IndexOf_mod: "IndexOf h t key = h key mod 2 ^ global_depth t"
  unfolding IndexOf_def Let_def by (rule and_low_mask)

lemma and_pow_zero: "((x::nat) AND 2 ^ d = 0) = (\<not> bit x d)"
  by (rule and_exp_eq_0_iff_not_bit)

lemma and_pow_pos: "(0 < (x::nat) AND 2 ^ d) = bit x d"
  using and_pow_zero [of x d] by auto

lemma length_repoint: "length (repoint d b0 b1 i ds) = length ds"
proof (induction d b0 b1 i ds rule: repoint.induct)
  case (1 d bucket0 bucket1 i ds)
  show ?case
  proof (cases "i < length ds")
    case True
    then show ?thesis
      using "1.IH" by (subst repoint.simps) simp
  next
    case False
    then show ?thesis by (subst repoint.simps) simp
  qed
qed

lemma nth_repoint:
  "j < length ds \<Longrightarrow>
   repoint d b0 b1 i ds ! j =
     (if i \<le> j \<and> (j - i) mod 2 ^ d = 0 then (if bit j d then b1 else b0) else ds ! j)"
proof (induction d b0 b1 i ds rule: repoint.induct)
  case (1 d bucket0 bucket1 i ds)
  show ?case
  proof (cases "i < length ds")
    case False
    with "1.prems" show ?thesis by (subst repoint.simps) simp
  next
    case True
    let ?ds' = "ds[i := (if i AND push_bit d 1 \<noteq> 0 then bucket1 else bucket0)]"
    have step: "repoint d bucket0 bucket1 i ds = repoint d bucket0 bucket1 (i + push_bit d 1) ?ds'"
      using True by (subst repoint.simps) simp
    have IH: "repoint d bucket0 bucket1 (i + push_bit d 1) ?ds' ! j =
        (if i + push_bit d 1 \<le> j \<and> (j - (i + push_bit d 1)) mod 2 ^ d = 0
         then (if bit j d then bucket1 else bucket0) else ?ds' ! j)"
      using "1.IH" [OF True] "1.prems" by simp
    show ?thesis
    proof (cases "j = i")
      case True
      then show ?thesis
        using step IH \<open>i < length ds\<close> by (simp add: and_pow_zero and_pow_pos)
    next
      case False
      have "(i \<le> j \<and> (j - i) mod 2 ^ d = 0) = (i + 2 ^ d \<le> j \<and> (j - (i + 2 ^ d)) mod 2 ^ d = 0)"
      proof (cases "i + 2 ^ d \<le> j")
        case True
        then have "j - i = (j - (i + 2 ^ d)) + 2 ^ d" by simp
        then have "(j - i) mod 2 ^ d = (j - (i + 2 ^ d)) mod 2 ^ d"
          by (metis mod_add_self2)
        with True show ?thesis by simp
      next
        case nle: False
        show ?thesis
        proof (cases "i \<le> j")
          case True
          with False nle have "0 < j - i" "j - i < 2 ^ d" by simp_all
          then have "(j - i) mod 2 ^ d \<noteq> 0" by simp
          with nle show ?thesis by simp
        next
          case False
          with nle show ?thesis by simp
        qed
      qed
      then show ?thesis
        using step IH False by (simp add: push_bit_eq_mult)
    qed
  qed
qed

lemma directory_okI:
  assumes "length (dir t) = 2 ^ global_depth t"
    and "\<And>i. i < length (dir t) \<Longrightarrow> dir t ! i < length (heap t)"
    and "\<And>i. i < length (dir t) \<Longrightarrow> GetLocalDepth t i \<le> global_depth t"
    and "\<And>i j. i < length (dir t) \<Longrightarrow> j < length (dir t) \<Longrightarrow>
           (dir t ! i = dir t ! j) = (i mod 2 ^ GetLocalDepth t i = j mod 2 ^ GetLocalDepth t i)"
    and "\<And>i k. i < length (dir t) \<Longrightarrow> k \<in> fst ` set (items (heap t ! (dir t ! i))) \<Longrightarrow>
           h k mod 2 ^ GetLocalDepth t i = i mod 2 ^ GetLocalDepth t i"
  shows "directory_ok h t"
  unfolding directory_ok_def using assms by blast

lemma directory_ok_length: "directory_ok h t \<Longrightarrow> length (dir t) = 2 ^ global_depth t"
  by (simp add: directory_ok_def)

lemma directory_ok_ref: "directory_ok h t \<Longrightarrow> i < length (dir t) \<Longrightarrow> dir t ! i < length (heap t)"
  by (simp add: directory_ok_def)

lemma directory_ok_depth:
  "directory_ok h t \<Longrightarrow> i < length (dir t) \<Longrightarrow> GetLocalDepth t i \<le> global_depth t"
  by (simp add: directory_ok_def)

lemma directory_ok_share:
  "directory_ok h t \<Longrightarrow> i < length (dir t) \<Longrightarrow> j < length (dir t) \<Longrightarrow>
   (dir t ! i = dir t ! j) = (i mod 2 ^ GetLocalDepth t i = j mod 2 ^ GetLocalDepth t i)"
  by (simp add: directory_ok_def)

lemma directory_ok_keys:
  "directory_ok h t \<Longrightarrow> i < length (dir t) \<Longrightarrow> k \<in> fst ` set (items (heap t ! (dir t ! i))) \<Longrightarrow>
   h k mod 2 ^ GetLocalDepth t i = i mod 2 ^ GetLocalDepth t i"
  unfolding directory_ok_def by blast

lemma directory_ok_fresh: "directory_ok h (ExtendibleHashTable B)"
  by (rule directory_okI) (simp_all add: ExtendibleHashTable_def GetLocalDepth_def Bucket_def)

lemma IndexOf_less: "directory_ok h t \<Longrightarrow> IndexOf h t key < length (dir t)"
  by (simp add: IndexOf_mod directory_ok_length)

lemma mod_mod_pow: "L \<le> G \<Longrightarrow> (x mod 2 ^ G) mod 2 ^ L = (x::nat) mod 2 ^ L"
  by (simp add: mod_mod_cancel le_imp_power_dvd)

subsection \<open>Doubling the directory\<close>

lemma directory_ok_grow:
  assumes ok: "directory_ok h t"
  shows "directory_ok h (grow t idx)"
proof (cases "depth (heap t ! (dir t ! idx)) = global_depth t")
  case False
  then show ?thesis using ok by (simp add: grow_def)
next
  case True
  let ?G = "global_depth t"
  let ?t = "t\<lparr>dir := dir t @ dir t, global_depth := global_depth t + 1\<rparr>"
  have len: "length (dir t) = 2 ^ ?G" using ok by (rule directory_ok_length)
  have nth: "dir ?t ! i = dir t ! (i mod 2 ^ ?G)" if "i < length (dir ?t)" for i
  proof (cases "i < 2 ^ ?G")
    case True
    then show ?thesis using len by (simp add: nth_append)
  next
    case False
    with that len have "i - 2 ^ ?G < 2 ^ ?G" by simp
    moreover have "i mod 2 ^ ?G = i - 2 ^ ?G"
      using False \<open>i - 2 ^ ?G < 2 ^ ?G\<close> by (simp add: mod_if)
    ultimately show ?thesis using False len by (simp add: nth_append)
  qed
  have lt: "i mod 2 ^ ?G < length (dir t)" for i using len by simp
  have ld: "GetLocalDepth ?t i = GetLocalDepth t (i mod 2 ^ ?G)" if "i < length (dir ?t)" for i
    using nth [OF that] by (simp add: GetLocalDepth_def)
  have "directory_ok h ?t"
  proof (rule directory_okI)
    show "length (dir ?t) = 2 ^ global_depth ?t" using len by simp
  next
    fix i assume i: "i < length (dir ?t)"
    show "dir ?t ! i < length (heap ?t)"
      using nth [OF i] directory_ok_ref [OF ok lt [of i]] by simp
    show "GetLocalDepth ?t i \<le> global_depth ?t"
      using ld [OF i] directory_ok_depth [OF ok lt [of i]] by simp
  next
    fix i j assume i: "i < length (dir ?t)" and j: "j < length (dir ?t)"
    let ?L = "GetLocalDepth t (i mod 2 ^ ?G)"
    have L: "?L \<le> ?G" using directory_ok_depth [OF ok lt [of i]] .
    have "(dir ?t ! i = dir ?t ! j) = (dir t ! (i mod 2 ^ ?G) = dir t ! (j mod 2 ^ ?G))"
      using nth [OF i] nth [OF j] by simp
    also have "\<dots> = ((i mod 2 ^ ?G) mod 2 ^ ?L = (j mod 2 ^ ?G) mod 2 ^ ?L)"
      using directory_ok_share [OF ok lt [of i] lt [of j]] .
    also have "\<dots> = (i mod 2 ^ ?L = j mod 2 ^ ?L)"
      using L by (simp add: mod_mod_pow)
    finally show "(dir ?t ! i = dir ?t ! j) =
        (i mod 2 ^ GetLocalDepth ?t i = j mod 2 ^ GetLocalDepth ?t i)"
      using ld [OF i] by simp
  next
    fix i k assume i: "i < length (dir ?t)"
      and k: "k \<in> fst ` set (items (heap ?t ! (dir ?t ! i)))"
    let ?L = "GetLocalDepth t (i mod 2 ^ ?G)"
    have L: "?L \<le> ?G" using directory_ok_depth [OF ok lt [of i]] .
    have "k \<in> fst ` set (items (heap t ! (dir t ! (i mod 2 ^ ?G))))"
      using k nth [OF i] by simp
    from directory_ok_keys [OF ok lt [of i] this]
    have "h k mod 2 ^ ?L = i mod 2 ^ ?L" using L by (simp add: mod_mod_pow)
    then show "h k mod 2 ^ GetLocalDepth ?t i = i mod 2 ^ GetLocalDepth ?t i"
      using ld [OF i] by simp
  qed
  then show ?thesis using True by (simp add: grow_def)
qed

lemma grow_heap: "heap (grow t idx) = heap t"
  by (simp add: grow_def)

lemma grow_nth: "idx < length (dir t) \<Longrightarrow> dir (grow t idx) ! idx = dir t ! idx"
  by (simp add: grow_def nth_append)

lemma grow_length: "length (dir t) \<le> length (dir (grow t idx))"
  by (simp add: grow_def)

lemma grow_depth_less:
  assumes "directory_ok h t" and "idx < length (dir t)"
  shows "depth (heap (grow t idx) ! (dir (grow t idx) ! idx)) < global_depth (grow t idx)"
proof -
  have "depth (heap t ! (dir t ! idx)) \<le> global_depth t"
    using directory_ok_depth [OF assms] by (simp add: GetLocalDepth_def)
  then show ?thesis
    using assms(2) by (auto simp: grow_def nth_append)
qed

subsection \<open>Buckets\<close>

lemma list_assign_keys: "list_assign key v xs = Some ys \<Longrightarrow> map fst ys = map fst xs"
  by (induction xs arbitrary: ys) (auto split: if_splits)

lemma list_assign_None: "list_assign key v xs = None \<Longrightarrow> key \<notin> fst ` set xs"
  by (induction xs) (auto split: if_splits)

lemma list_erase_subset: "list_erase key xs = Some ys \<Longrightarrow> set ys \<subseteq> set xs"
  by (induction xs arbitrary: ys) (auto split: if_splits)

lemma Bucket_Insert_depth: "depth (snd (Bucket_Insert b key v)) = depth b"
  by (simp add: Bucket_Insert_def split: option.splits)

lemma Bucket_Insert_keys:
  "fst ` set (items (snd (Bucket_Insert b key v))) \<subseteq> insert key (fst ` set (items b))"
proof (cases "IsFull b")
  case True
  then show ?thesis by (auto simp: Bucket_Insert_def)
next
  case False
  show ?thesis
  proof (cases "list_assign key v (items b)")
    case None
    with False show ?thesis by (auto simp: Bucket_Insert_def)
  next
    case (Some ys)
    from list_assign_keys [OF Some] have "fst ` set ys = fst ` set (items b)"
      by (metis set_map)
    with False Some show ?thesis by (auto simp: Bucket_Insert_def)
  qed
qed

lemma Bucket_Remove_depth: "depth (snd (Bucket_Remove b key)) = depth b"
  by (simp add: Bucket_Remove_def split: option.splits)

lemma Bucket_Remove_keys:
  "fst ` set (items (snd (Bucket_Remove b key))) \<subseteq> fst ` set (items b)"
  by (auto simp: Bucket_Remove_def split: option.splits dest!: list_erase_subset)

subsection \<open>The first loop of RedistributeBucket\<close>

lemma distribute_depth:
  "depth (fst (distribute h m bs item)) = depth (fst bs) \<and>
   depth (snd (distribute h m bs item)) = depth (snd bs)"
  by (simp add: distribute_def Bucket_Insert_depth)

lemma foldl_distribute_depth:
  "depth (fst (foldl (distribute h m) bs xs)) = depth (fst bs) \<and>
   depth (snd (foldl (distribute h m) bs xs)) = depth (snd bs)"
  by (induction xs arbitrary: bs) (simp_all add: distribute_depth)

lemma distribute_keys:
  "fst ` set (items (fst (distribute h (2 ^ L) bs item)))
     \<subseteq> fst ` set (items (fst bs)) \<union> (if bit (h (fst item)) L then {} else {fst item}) \<and>
   fst ` set (items (snd (distribute h (2 ^ L) bs item)))
     \<subseteq> fst ` set (items (snd bs)) \<union> (if bit (h (fst item)) L then {fst item} else {})"
  using Bucket_Insert_keys [of "fst bs" "fst item" "snd item"]
    Bucket_Insert_keys [of "snd bs" "fst item" "snd item"]
  by (auto simp: distribute_def and_pow_zero)

lemma subset_chain: "C \<subseteq> A \<union> Y \<Longrightarrow> A \<subseteq> B \<union> X \<Longrightarrow> X \<union> Y \<subseteq> Z \<Longrightarrow> C \<subseteq> B \<union> Z"
  by blast

lemma foldl_distribute_keys:
  "fst ` set (items (fst (foldl (distribute h (2 ^ L)) bs xs)))
     \<subseteq> fst ` set (items (fst bs)) \<union> {k \<in> fst ` set xs. \<not> bit (h k) L} \<and>
   fst ` set (items (snd (foldl (distribute h (2 ^ L)) bs xs)))
     \<subseteq> fst ` set (items (snd bs)) \<union> {k \<in> fst ` set xs. bit (h k) L}"
proof (induction xs arbitrary: bs)
  case Nil
  then show ?case by simp
next
  case (Cons x xs)
  have a: "fst ` set (items (fst (distribute h (2 ^ L) bs x)))
      \<subseteq> fst ` set (items (fst bs)) \<union> (if bit (h (fst x)) L then {} else {fst x})"
    and b: "fst ` set (items (snd (distribute h (2 ^ L) bs x)))
      \<subseteq> fst ` set (items (snd bs)) \<union> (if bit (h (fst x)) L then {fst x} else {})"
    using distribute_keys [of h L bs x] by blast+
  have c: "fst ` set (items (fst (foldl (distribute h (2 ^ L)) (distribute h (2 ^ L) bs x) xs)))
      \<subseteq> fst ` set (items (fst (distribute h (2 ^ L) bs x))) \<union> {k \<in> fst ` set xs. \<not> bit (h k) L}"
    and d: "fst ` set (items (snd (foldl (distribute h (2 ^ L)) (distribute h (2 ^ L) bs x) xs)))
      \<subseteq> fst ` set (items (snd (distribute h (2 ^ L) bs x))) \<union> {k \<in> fst ` set xs. bit (h k) L}"
    using Cons.IH [of "distribute h (2 ^ L) bs x"] by blast+
  have e: "(if bit (h (fst x)) L then {} else {fst x}) \<union> {k \<in> fst ` set xs. \<not> bit (h k) L}
      \<subseteq> {k \<in> fst ` set (x # xs). \<not> bit (h k) L}"
    and f: "(if bit (h (fst x)) L then {fst x} else {}) \<union> {k \<in> fst ` set xs. bit (h k) L}
      \<subseteq> {k \<in> fst ` set (x # xs). bit (h k) L}"
    by auto
  have unfold: "foldl (distribute h (2 ^ L)) bs (x # xs)
      = foldl (distribute h (2 ^ L)) (distribute h (2 ^ L) bs x) xs"
    by simp
  have "fst ` set (items (fst (foldl (distribute h (2 ^ L)) bs (x # xs))))
      \<subseteq> fst ` set (items (fst bs)) \<union> {k \<in> fst ` set (x # xs). \<not> bit (h k) L}"
    unfolding unfold by (rule subset_chain [OF c a e])
  moreover have "fst ` set (items (snd (foldl (distribute h (2 ^ L)) bs (x # xs))))
      \<subseteq> fst ` set (items (snd bs)) \<union> {k \<in> fst ` set (x # xs). bit (h k) L}"
    unfolding unfold by (rule subset_chain [OF d b f])
  ultimately show ?case by (rule conjI)
qed

subsection \<open>Splitting a bucket\<close>

lemma split_sum_eq:
  assumes "a < (m::nat)" and "b < m"
  shows "(m * of_bool p + a = m * of_bool q + b) = (a = b \<and> p = q)"
  using assms by (cases p; cases q) auto

lemma mod_Suc_pow_eq:
  "((x::nat) mod 2 ^ Suc L = y mod 2 ^ Suc L) = (x mod 2 ^ L = y mod 2 ^ L \<and> bit x L = bit y L)"
proof -
  have x: "x mod 2 ^ Suc L = 2 ^ L * of_bool (bit x L) + x mod 2 ^ L"
    using take_bit_Suc_from_most [of L x] by (simp add: take_bit_eq_mod)
  have y: "y mod 2 ^ Suc L = 2 ^ L * of_bool (bit y L) + y mod 2 ^ L"
    using take_bit_Suc_from_most [of L y] by (simp add: take_bit_eq_mod)
  have bx: "x mod 2 ^ L < 2 ^ L" and "y mod 2 ^ L < 2 ^ L" by simp_all
  then show ?thesis unfolding x y by (rule split_sum_eq)
qed

lemma stride_iff_mod:
  assumes "i0 < (m::nat)"
  shows "(i0 \<le> j \<and> (j - i0) mod m = 0) = (j mod m = i0)"
proof
  assume a: "i0 \<le> j \<and> (j - i0) mod m = 0"
  then obtain q where "j - i0 = m * q" by (auto simp: mod_eq_0_iff_dvd)
  with a have "j = i0 + m * q" by simp
  then show "j mod m = i0" using assms by simp
next
  assume b: "j mod m = i0"
  have j: "j = m * (j div m) + j mod m" by simp
  then have "i0 \<le> j" using b by (metis le_add2)
  moreover have "j - i0 = m * (j div m)" using j b by (metis add_diff_cancel_right')
  ultimately show "i0 \<le> j \<and> (j - i0) mod m = 0" by simp
qed

lemma RedistributeBucket_dir:
  assumes ok: "directory_ok h t" and idx: "idx < length (dir t)" and j: "j < length (dir t)"
  shows "dir (RedistributeBucket h t (dir t ! idx) idx) ! j =
    (if dir t ! j = dir t ! idx
     then (if bit j (depth (heap t ! (dir t ! idx))) then length (heap t) + 1 else length (heap t))
     else dir t ! j)"
proof -
  let ?L = "depth (heap t ! (dir t ! idx))"
  have L: "GetLocalDepth t idx = ?L" by (simp add: GetLocalDepth_def)
  have "(idx mod 2 ^ ?L \<le> j \<and> (j - idx mod 2 ^ ?L) mod 2 ^ ?L = 0) = (j mod 2 ^ ?L = idx mod 2 ^ ?L)"
    by (rule stride_iff_mod) simp
  also have "\<dots> = (dir t ! idx = dir t ! j)"
    using directory_ok_share [OF ok idx j] L by auto
  finally have cond: "(idx mod 2 ^ ?L \<le> j \<and> (j - idx mod 2 ^ ?L) mod 2 ^ ?L = 0) = (dir t ! j = dir t ! idx)"
    by auto
  have "dir (RedistributeBucket h t (dir t ! idx) idx) =
      repoint ?L (length (heap t)) (length (heap t) + 1) (idx mod 2 ^ ?L) (dir t)"
    by (simp add: RedistributeBucket_def Let_def and_low_mask')
  then show ?thesis
    using nth_repoint [OF j, of ?L "length (heap t)" "length (heap t) + 1" "idx mod 2 ^ ?L"] cond
    by simp
qed

lemma RedistributeBucket_length: "length (dir (RedistributeBucket h t p idx)) = length (dir t)"
  by (simp add: RedistributeBucket_def Let_def length_repoint)

lemma RedistributeBucket_global_depth: "global_depth (RedistributeBucket h t p idx) = global_depth t"
  by (simp add: RedistributeBucket_def Let_def)

lemma RedistributeBucket_bucket_size: "bucket_size (RedistributeBucket h t p idx) = bucket_size t"
  by (simp add: RedistributeBucket_def Let_def)

lemma RedistributeBucket_heap_length: "length (heap (RedistributeBucket h t p idx)) = length (heap t) + 2"
  by (simp add: RedistributeBucket_def Let_def)

lemma RedistributeBucket_heap_old:
  "q < length (heap t) \<Longrightarrow> heap (RedistributeBucket h t p idx) ! q = heap t ! q"
  by (simp add: RedistributeBucket_def Let_def nth_append)

lemma RedistributeBucket_new_depth:
  "depth (heap (RedistributeBucket h t p idx) ! length (heap t)) = depth (heap t ! p) + 1 \<and>
   depth (heap (RedistributeBucket h t p idx) ! (length (heap t) + 1)) = depth (heap t ! p) + 1"
  by (simp add: RedistributeBucket_def Let_def nth_append foldl_distribute_depth Bucket_def)

lemma RedistributeBucket_new_keys:
  "fst ` set (items (heap (RedistributeBucket h t p idx) ! length (heap t)))
     \<subseteq> {k \<in> fst ` set (items (heap t ! p)). \<not> bit (h k) (depth (heap t ! p))} \<and>
   fst ` set (items (heap (RedistributeBucket h t p idx) ! (length (heap t) + 1)))
     \<subseteq> {k \<in> fst ` set (items (heap t ! p)). bit (h k) (depth (heap t ! p))}"
  using foldl_distribute_keys [of h "depth (heap t ! p)"
      "(Bucket (bucket_size t) (depth (heap t ! p) + 1), Bucket (bucket_size t) (depth (heap t ! p) + 1))"
      "items (heap t ! p)"]
  by (simp add: RedistributeBucket_def Let_def nth_append Bucket_def push_bit_eq_mult)

lemma directory_ok_RedistributeBucket:
  assumes ok: "directory_ok h t" and idx: "idx < length (dir t)"
    and less: "depth (heap t ! (dir t ! idx)) < global_depth t"
  shows "directory_ok h (RedistributeBucket h t (dir t ! idx) idx)"
proof -
  let ?p = "dir t ! idx"
  let ?L = "depth (heap t ! ?p)"
  let ?n = "length (heap t)"
  let ?t = "RedistributeBucket h t ?p idx"
  have len: "length (dir ?t) = length (dir t)" by (rule RedistributeBucket_length)
  have nth: "dir ?t ! j = (if dir t ! j = ?p then (if bit j ?L then ?n + 1 else ?n) else dir t ! j)"
    if "j < length (dir t)" for j
    using RedistributeBucket_dir [OF ok idx that] .
  have ref: "dir t ! j < ?n" if "j < length (dir t)" for j
    using directory_ok_ref [OF ok that] .
  have hit: "GetLocalDepth ?t j = ?L + 1" if "j < length (dir t)" "dir t ! j = ?p" for j
    using nth [OF that(1)] that(2) RedistributeBucket_new_depth [of h t ?p idx]
    by (simp add: GetLocalDepth_def)
  have miss: "GetLocalDepth ?t j = GetLocalDepth t j" if "j < length (dir t)" "dir t ! j \<noteq> ?p" for j
    using nth [OF that(1)] that(2) RedistributeBucket_heap_old [OF ref [OF that(1)], of h ?p idx]
    by (simp add: GetLocalDepth_def)
  have old_depth: "GetLocalDepth t j = ?L" if "dir t ! j = ?p" for j
    using that by (simp add: GetLocalDepth_def)
  show ?thesis
  proof (rule directory_okI)
    show "length (dir ?t) = 2 ^ global_depth ?t"
      using directory_ok_length [OF ok] by (simp add: len RedistributeBucket_global_depth)
  next
    fix i assume "i < length (dir ?t)"
    then have i: "i < length (dir t)" by (simp add: len)
    show "dir ?t ! i < length (heap ?t)"
      using nth [OF i] ref [OF i] by (simp add: RedistributeBucket_heap_length)
    show "GetLocalDepth ?t i \<le> global_depth ?t"
    proof (cases "dir t ! i = ?p")
      case True
      then show ?thesis using hit [OF i] less by (simp add: RedistributeBucket_global_depth)
    next
      case False
      then show ?thesis
        using miss [OF i] directory_ok_depth [OF ok i] by (simp add: RedistributeBucket_global_depth)
    qed
  next
    fix i j assume "i < length (dir ?t)" "j < length (dir ?t)"
    then have i: "i < length (dir t)" and j: "j < length (dir t)" by (simp_all add: len)
    note share = directory_ok_share [OF ok i j]
    show "(dir ?t ! i = dir ?t ! j) = (i mod 2 ^ GetLocalDepth ?t i = j mod 2 ^ GetLocalDepth ?t i)"
    proof (cases "dir t ! i = ?p")
      case Pi: True
      have modL: "(i mod 2 ^ ?L = j mod 2 ^ ?L) = (dir t ! j = ?p)"
        using share old_depth [OF Pi] Pi by auto
      show ?thesis
      proof (cases "dir t ! j = ?p")
        case True
        then have "i mod 2 ^ ?L = j mod 2 ^ ?L" using modL by simp
        then have "(i mod 2 ^ Suc ?L = j mod 2 ^ Suc ?L) = (bit i ?L = bit j ?L)"
          unfolding mod_Suc_pow_eq by blast
        moreover have "(dir ?t ! i = dir ?t ! j) = (bit i ?L = bit j ?L)"
          using nth [OF i] nth [OF j] Pi True by auto
        ultimately show ?thesis using hit [OF i Pi] by simp
      next
        case False
        then have "i mod 2 ^ ?L \<noteq> j mod 2 ^ ?L" using modL by simp
        then have "i mod 2 ^ Suc ?L \<noteq> j mod 2 ^ Suc ?L"
          unfolding mod_Suc_pow_eq by blast
        moreover have "dir ?t ! i \<noteq> dir ?t ! j"
          using nth [OF i] nth [OF j] Pi False ref [OF j] by auto
        ultimately show ?thesis using hit [OF i Pi] by simp
      qed
    next
      case nPi: False
      show ?thesis
      proof (cases "dir t ! j = ?p")
        case True
        have "dir t ! i \<noteq> dir t ! j" using nPi True by simp
        then have "i mod 2 ^ GetLocalDepth t i \<noteq> j mod 2 ^ GetLocalDepth t i"
          using share by simp
        moreover have "dir ?t ! i \<noteq> dir ?t ! j"
          using nth [OF i] nth [OF j] nPi True ref [OF i] by auto
        ultimately show ?thesis using miss [OF i nPi] by simp
      next
        case False
        then show ?thesis
          using nth [OF i] nth [OF j] nPi miss [OF i nPi] share by simp
      qed
    qed
  next
    fix i k assume "i < length (dir ?t)" and k: "k \<in> fst ` set (items (heap ?t ! (dir ?t ! i)))"
    then have i: "i < length (dir t)" by (simp add: len)
    show "h k mod 2 ^ GetLocalDepth ?t i = i mod 2 ^ GetLocalDepth ?t i"
    proof (cases "dir t ! i = ?p")
      case Pi: True
      have old: "k' \<in> fst ` set (items (heap t ! ?p)) \<Longrightarrow> h k' mod 2 ^ ?L = i mod 2 ^ ?L" for k'
        using directory_ok_keys [OF ok i, of k'] Pi old_depth [OF Pi] by simp
      have "k \<in> fst ` set (items (heap t ! ?p)) \<and> bit (h k) ?L = bit i ?L"
      proof (cases "bit i ?L")
        case True
        then have "dir ?t ! i = ?n + 1" using nth [OF i] Pi by simp
        with k RedistributeBucket_new_keys [of h t ?p idx] True show ?thesis by auto
      next
        case False
        then have "dir ?t ! i = ?n" using nth [OF i] Pi by simp
        with k RedistributeBucket_new_keys [of h t ?p idx] False show ?thesis by auto
      qed
      then have "h k mod 2 ^ Suc ?L = i mod 2 ^ Suc ?L"
        using old [of k] unfolding mod_Suc_pow_eq by blast
      then show ?thesis using hit [OF i Pi] by simp
    next
      case False
      then have "heap ?t ! (dir ?t ! i) = heap t ! (dir t ! i)"
        using nth [OF i] RedistributeBucket_heap_old [OF ref [OF i], of h ?p idx] by simp
      then show ?thesis
        using k directory_ok_keys [OF ok i, of k] miss [OF i False] by simp
    qed
  qed
qed

subsection \<open>Changing one bucket in place\<close>

lemma directory_ok_heap_update:
  assumes ok: "directory_ok h t"
    and d: "depth b = depth (heap t ! p)"
    and keys: "\<And>i k. i < length (dir t) \<Longrightarrow> dir t ! i = p \<Longrightarrow> k \<in> fst ` set (items b) \<Longrightarrow>
                 h k mod 2 ^ depth b = i mod 2 ^ depth b"
  shows "directory_ok h (t\<lparr>heap := (heap t)[p := b]\<rparr>)"
proof -
  let ?t = "t\<lparr>heap := (heap t)[p := b]\<rparr>"
  have ld: "GetLocalDepth ?t i = GetLocalDepth t i" if "i < length (dir t)" for i
    using directory_ok_ref [OF ok that] d
    by (cases "dir t ! i = p") (simp_all add: GetLocalDepth_def)
  show ?thesis
  proof (rule directory_okI)
    show "length (dir ?t) = 2 ^ global_depth ?t"
      using directory_ok_length [OF ok] by simp
  next
    fix i assume "i < length (dir ?t)"
    then have i: "i < length (dir t)" by simp
    show "dir ?t ! i < length (heap ?t)" using directory_ok_ref [OF ok i] by simp
    show "GetLocalDepth ?t i \<le> global_depth ?t"
      using ld [OF i] directory_ok_depth [OF ok i] by simp
  next
    fix i j assume "i < length (dir ?t)" "j < length (dir ?t)"
    then have i: "i < length (dir t)" and j: "j < length (dir t)" by simp_all
    show "(dir ?t ! i = dir ?t ! j) = (i mod 2 ^ GetLocalDepth ?t i = j mod 2 ^ GetLocalDepth ?t i)"
      using directory_ok_share [OF ok i j] ld [OF i] by simp
  next
    fix i k assume "i < length (dir ?t)" and k: "k \<in> fst ` set (items (heap ?t ! (dir ?t ! i)))"
    then have i: "i < length (dir t)" by simp
    show "h k mod 2 ^ GetLocalDepth ?t i = i mod 2 ^ GetLocalDepth ?t i"
    proof (cases "dir t ! i = p")
      case True
      then have "heap ?t ! (dir ?t ! i) = b" using directory_ok_ref [OF ok i] by simp
      with k have "k \<in> fst ` set (items b)" by simp
      from keys [OF i True this] show ?thesis
        using ld [OF i] True d by (simp add: GetLocalDepth_def)
    next
      case False
      then have "heap ?t ! (dir ?t ! i) = heap t ! (dir t ! i)" by simp
      with k directory_ok_keys [OF ok i, of k] ld [OF i] show ?thesis by simp
    qed
  qed
qed

lemma key_fits_its_slot:
  assumes ok: "directory_ok h t" and i: "i < length (dir t)"
    and same: "dir t ! i = dir t ! IndexOf h t key"
  shows "h key mod 2 ^ depth (heap t ! (dir t ! i)) = i mod 2 ^ depth (heap t ! (dir t ! i))"
proof -
  let ?idx = "IndexOf h t key"
  let ?L = "depth (heap t ! (dir t ! i))"
  have idx: "?idx < length (dir t)" using ok by (rule IndexOf_less)
  have L: "GetLocalDepth t i = ?L" by (simp add: GetLocalDepth_def)
  have "i mod 2 ^ ?L = ?idx mod 2 ^ ?L"
    using directory_ok_share [OF ok i idx] same L by simp
  moreover have "?L \<le> global_depth t" using directory_ok_depth [OF ok i] L by simp
  then have "?idx mod 2 ^ ?L = h key mod 2 ^ ?L"
    by (simp add: IndexOf_mod mod_mod_pow)
  ultimately show ?thesis by simp
qed

lemma directory_ok_Bucket_Insert:
  assumes ok: "directory_ok h t"
  shows "directory_ok h
    (t\<lparr>heap := (heap t)[dir t ! IndexOf h t key :=
        snd (Bucket_Insert (heap t ! (dir t ! IndexOf h t key)) key v)]\<rparr>)"
proof (rule directory_ok_heap_update [OF ok])
  let ?p = "dir t ! IndexOf h t key"
  let ?b = "snd (Bucket_Insert (heap t ! ?p) key v)"
  show d: "depth ?b = depth (heap t ! ?p)" by (rule Bucket_Insert_depth)
  fix i k assume i: "i < length (dir t)" and p: "dir t ! i = ?p" and k: "k \<in> fst ` set (items ?b)"
  from k Bucket_Insert_keys [of "heap t ! ?p" key v]
  have "k = key \<or> k \<in> fst ` set (items (heap t ! (dir t ! i)))" using p by auto
  then show "h k mod 2 ^ depth ?b = i mod 2 ^ depth ?b"
  proof
    assume "k = key"
    then show ?thesis using key_fits_its_slot [OF ok i p] p d by simp
  next
    assume "k \<in> fst ` set (items (heap t ! (dir t ! i)))"
    from directory_ok_keys [OF ok i this] show ?thesis
      using p d by (simp add: GetLocalDepth_def)
  qed
qed

lemma directory_ok_HashTable_Remove:
  assumes ok: "directory_ok h t"
  shows "directory_ok h (snd (HashTable_Remove h t key))"
proof -
  let ?p = "dir t ! IndexOf h t key"
  let ?b = "snd (Bucket_Remove (heap t ! ?p) key)"
  have "directory_ok h (t\<lparr>heap := (heap t)[?p := ?b]\<rparr>)"
  proof (rule directory_ok_heap_update [OF ok])
    show d: "depth ?b = depth (heap t ! ?p)" by (rule Bucket_Remove_depth)
    fix i k assume i: "i < length (dir t)" and p: "dir t ! i = ?p" and k: "k \<in> fst ` set (items ?b)"
    from k Bucket_Remove_keys [of "heap t ! ?p" key]
    have "k \<in> fst ` set (items (heap t ! (dir t ! i)))" using p by auto
    from directory_ok_keys [OF ok i this] show "h k mod 2 ^ depth ?b = i mod 2 ^ depth ?b"
      using p d by (simp add: GetLocalDepth_def)
  qed
  then show ?thesis
    by (simp add: HashTable_Remove_def Let_def case_prod_beta)
qed

subsection \<open>One round of the loop of Insert, and the loop\<close>

lemma directory_ok_split_round:
  assumes ok: "directory_ok h t"
  shows "directory_ok h (split_round h t key)"
proof -
  let ?idx = "IndexOf h t key"
  let ?t1 = "grow t ?idx"
  have idx: "?idx < length (dir t)" using ok by (rule IndexOf_less)
  then have idx1: "?idx < length (dir ?t1)" using grow_length [of t ?idx] by simp
  have ok1: "directory_ok h ?t1" using ok by (rule directory_ok_grow)
  have "depth (heap ?t1 ! (dir ?t1 ! ?idx)) < global_depth ?t1"
    using ok idx by (rule grow_depth_less)
  from directory_ok_RedistributeBucket [OF ok1 idx1 this]
  show ?thesis by (simp add: split_round_def Let_def)
qed

lemma HashTable_Insert_unfold:
  "HashTable_Insert h t key v =
     (if fst (Bucket_Insert (heap t ! (dir t ! IndexOf h t key)) key v)
      then Some (t\<lparr>heap := (heap t)[dir t ! IndexOf h t key :=
                       snd (Bucket_Insert (heap t ! (dir t ! IndexOf h t key)) key v)]\<rparr>)
      else HashTable_Insert h (split_round h t key) key v)"
  by (subst HashTable_Insert.simps) (simp add: Let_def split_round_def)

lemma directory_ok_HashTable_Insert_aux:
  assumes "HashTable_Insert h t key v = Some t'"
  shows "directory_ok h t \<longrightarrow> directory_ok h t'"
proof (rule HashTable_Insert.raw_induct
    [where P = "\<lambda>h t key v t'. directory_ok h t \<longrightarrow> directory_ok h t'", OF _ assms])
  fix f :: "('a \<Rightarrow> nat) \<Rightarrow> ('a, 'b) hash_table \<Rightarrow> 'a \<Rightarrow> 'b \<Rightarrow> ('a, 'b) hash_table option"
  fix h t key v t'
  assume IH: "\<And>h t key v t'. f h t key v = Some t' \<Longrightarrow> directory_ok h t \<longrightarrow> directory_ok h t'"
  assume body: "(let p = dir t ! IndexOf h t key;
          res = Bucket_Insert (heap t ! p) key v
      in if fst res then Some (t\<lparr>heap := (heap t)[p := snd res]\<rparr>)
         else
           let dir_index = IndexOf h t key;
               t1 = grow t dir_index
           in f h (RedistributeBucket h t1 (dir t1 ! dir_index) dir_index) key v) = Some t'"
  show "directory_ok h t \<longrightarrow> directory_ok h t'"
  proof
    assume ok: "directory_ok h t"
    show "directory_ok h t'"
    proof (cases "fst (Bucket_Insert (heap t ! (dir t ! IndexOf h t key)) key v)")
      case True
      with body have "t' = t\<lparr>heap := (heap t)[dir t ! IndexOf h t key :=
          snd (Bucket_Insert (heap t ! (dir t ! IndexOf h t key)) key v)]\<rparr>"
        by (simp add: Let_def)
      then show ?thesis using directory_ok_Bucket_Insert [OF ok] by simp
    next
      case False
      with body have "f h (split_round h t key) key v = Some t'"
        by (simp add: Let_def split_round_def)
      from IH [OF this] directory_ok_split_round [OF ok] show ?thesis by simp
    qed
  qed
qed

lemma directory_ok_HashTable_Insert:
  "HashTable_Insert h t key v = Some t' \<Longrightarrow> directory_ok h t \<Longrightarrow> directory_ok h t'"
  by (rule directory_ok_HashTable_Insert_aux [THEN mp])

lemma directory_ok_table_run:
  "table_run h t calls = Some t' \<Longrightarrow> directory_ok h t \<Longrightarrow> directory_ok h t'"
proof (induction h t calls rule: table_run.induct)
  case (1 h t)
  then show ?case by simp
next
  case (2 h t key v cs)
  then show ?case
    by (auto split: option.splits dest: directory_ok_HashTable_Insert)
next
  case (3 h t key cs)
  then show ?case
    by (simp add: directory_ok_HashTable_Remove)
qed

subsection \<open>How many slots point to a bucket\<close>

lemma card_residue_class:
  assumes "r < (m::nat)"
  shows "card {j. j < m * n \<and> j mod m = r} = n"
proof -
  have m: "0 < m" using assms by simp
  have "{j. j < m * n \<and> j mod m = r} = (\<lambda>q. q * m + r) ` {..<n}"
  proof (rule set_eqI, rule iffI)
    fix j assume "j \<in> {j. j < m * n \<and> j mod m = r}"
    then have lt: "j < m * n" and r: "j mod m = r" by simp_all
    have "j div m < n" using lt m by (simp add: less_mult_imp_div_less mult.commute)
    moreover have "j = (j div m) * m + r" using r by (metis div_mult_mod_eq)
    ultimately show "j \<in> (\<lambda>q. q * m + r) ` {..<n}" by blast
  next
    fix j assume "j \<in> (\<lambda>q. q * m + r) ` {..<n}"
    then obtain q where q: "q < n" and j: "j = q * m + r" by auto
    have "q * m + r < q * m + m" using assms by simp
    also have "\<dots> = (q + 1) * m" by simp
    also have "\<dots> \<le> n * m" using q by (intro mult_le_mono1) simp
    finally have "j < m * n" using j by (simp add: mult.commute)
    moreover have "j mod m = r" using j assms by simp
    ultimately show "j \<in> {j. j < m * n \<and> j mod m = r}" by simp
  qed
  moreover have "inj_on (\<lambda>q. q * m + r) {..<n}"
    using m by (auto intro!: inj_onI)
  ultimately show ?thesis by (simp add: card_image)
qed

lemma directory_ok_slot_count:
  assumes ok: "directory_ok h t" and i: "i < length (dir t)"
  shows "card {j. j < length (dir t) \<and> dir t ! j = dir t ! i}
           = 2 ^ (global_depth t - GetLocalDepth t i)"
proof -
  let ?L = "GetLocalDepth t i"
  let ?G = "global_depth t"
  have L: "?L \<le> ?G" using ok i by (rule directory_ok_depth)
  have len: "length (dir t) = 2 ^ ?L * 2 ^ (?G - ?L)"
    using directory_ok_length [OF ok] L by (simp flip: power_add)
  have sh: "(dir t ! j = dir t ! i) = (j mod 2 ^ ?L = i mod 2 ^ ?L)" if "j < length (dir t)" for j
    using directory_ok_share [OF ok i that] by metis
  have "{j. j < length (dir t) \<and> dir t ! j = dir t ! i}
      = {j. j < 2 ^ ?L * 2 ^ (?G - ?L) \<and> j mod 2 ^ ?L = i mod 2 ^ ?L}"
    using sh len by auto
  then show ?thesis by (simp add: card_residue_class)
qed

lemma directory_ok_key_slot:
  assumes ok: "directory_ok h t" and i: "i < length (dir t)"
    and k: "k \<in> fst ` set (items (heap t ! (dir t ! i)))"
  shows "dir t ! IndexOf h t k = dir t ! i"
proof -
  let ?L = "GetLocalDepth t i"
  have idx: "IndexOf h t k < length (dir t)" using ok by (rule IndexOf_less)
  have L: "?L \<le> global_depth t" using ok i by (rule directory_ok_depth)
  have "IndexOf h t k mod 2 ^ ?L = h k mod 2 ^ ?L"
    using L by (simp add: IndexOf_mod mod_mod_pow)
  also have "\<dots> = i mod 2 ^ ?L" using ok i k by (rule directory_ok_keys)
  finally show ?thesis using directory_ok_share [OF ok i idx] by simp
qed

text \<open>
  C4: after every sequence of public calls on a fresh table (the calls that change it are
  \<open>Insert\<close> and \<open>Remove\<close>; a sequence counts once all its calls have returned), the
  directory has \<open>2 ^ G\<close> slots, every bucket's local depth \<open>L\<close> is at most \<open>G\<close>, exactly
  \<open>2 ^ (G - L)\<close> slots point to each bucket, and for every key \<open>k\<close> stored in a bucket of
  the directory, \<open>dir[IndexOf(k)]\<close> is that bucket, so no other bucket holds \<open>k\<close>.
\<close>

theorem directory_invariants_after_calls:
  assumes "table_run h (ExtendibleHashTable B) calls = Some t"
  shows "length (dir t) = 2 ^ GetGlobalDepth t \<and>
    (\<forall>i < length (dir t). GetLocalDepth t i \<le> GetGlobalDepth t) \<and>
    (\<forall>i < length (dir t).
       card {j. j < length (dir t) \<and> dir t ! j = dir t ! i}
         = 2 ^ (GetGlobalDepth t - GetLocalDepth t i)) \<and>
    (\<forall>i < length (dir t). \<forall>k \<in> fst ` set (items (heap t ! (dir t ! i))).
       dir t ! IndexOf h t k = dir t ! i)"
proof -
  have ok: "directory_ok h t"
    using assms directory_ok_fresh by (rule directory_ok_table_run)
  show ?thesis
    using directory_ok_length [OF ok] directory_ok_depth [OF ok]
      directory_ok_slot_count [OF ok] directory_ok_key_slot [OF ok]
    by (simp add: GetGlobalDepth_def)
qed

lemma hash_split_runs: "table_run id (ExtendibleHashTable 2) hash_split_calls \<noteq> None"
  by code_simp

lemma hash_split_table_facts:
  "dir hash_split_table = [5, 2, 4, 2, 7, 2, 4, 2, 5, 2, 4, 2, 8, 2, 4, 2]"
  "global_depth hash_split_table = 4"
  "map depth (heap hash_split_table) = [0, 1, 1, 2, 2, 3, 3, 4, 4]"
  "map fst (items (heap hash_split_table ! 7)) = [20, 4]"
  by code_simp+

lemma hash_split_table_slots:
  "length (dir hash_split_table) = 16"
  "GetGlobalDepth hash_split_table = 4"
  "GetLocalDepth hash_split_table 4 = 4"
  "GetLocalDepth hash_split_table 2 = 2"
  "20 \<in> fst ` set (items (heap hash_split_table ! (dir hash_split_table ! 4)))"
  by code_simp+

theorem directory_invariants_after_calls_witness:
  "table_run id (ExtendibleHashTable 2) hash_split_calls = Some hash_split_table \<and>
   length (dir hash_split_table) = 2 ^ GetGlobalDepth hash_split_table \<and>
   GetLocalDepth hash_split_table 4 \<le> GetGlobalDepth hash_split_table \<and>
   card {j. j < length (dir hash_split_table) \<and> dir hash_split_table ! j = dir hash_split_table ! 4} = 1 \<and>
   card {j. j < length (dir hash_split_table) \<and> dir hash_split_table ! j = dir hash_split_table ! 2} = 4 \<and>
   dir hash_split_table ! IndexOf id hash_split_table 20 = dir hash_split_table ! 4"
proof -
  have run: "table_run id (ExtendibleHashTable 2) hash_split_calls = Some hash_split_table"
    using hash_split_runs by (simp add: hash_split_table_def)
  note inv = directory_invariants_after_calls [OF run]
  have i4: "4 < length (dir hash_split_table)" and i1: "2 < length (dir hash_split_table)"
    by (simp_all add: hash_split_table_slots(1))
  have a: "length (dir hash_split_table) = 2 ^ GetGlobalDepth hash_split_table"
    using inv by blast
  have b: "GetLocalDepth hash_split_table 4 \<le> GetGlobalDepth hash_split_table"
    using inv i4 by blast
  have "card {j. j < length (dir hash_split_table) \<and> dir hash_split_table ! j = dir hash_split_table ! 4}
      = 2 ^ (GetGlobalDepth hash_split_table - GetLocalDepth hash_split_table 4)"
    using inv i4 by blast
  then have c: "card {j. j < length (dir hash_split_table) \<and> dir hash_split_table ! j = dir hash_split_table ! 4} = 1"
    by (simp add: hash_split_table_slots(2,3))
  have "card {j. j < length (dir hash_split_table) \<and> dir hash_split_table ! j = dir hash_split_table ! 2}
      = 2 ^ (GetGlobalDepth hash_split_table - GetLocalDepth hash_split_table 2)"
    using inv i1 by blast
  then have d: "card {j. j < length (dir hash_split_table) \<and> dir hash_split_table ! j = dir hash_split_table ! 2} = 4"
    by (simp add: hash_split_table_slots(2,4))
  have e: "dir hash_split_table ! IndexOf id hash_split_table 20 = dir hash_split_table ! 4"
    using inv i4 hash_split_table_slots(5) by blast
  from run a b c d e show ?thesis by blast
qed


text \<open>
  C8 (as stated): with bucket size 2 and the identity hash, inserting 4, 12 and 20 into a
  fresh table leaves global depth 2 and 2 buckets. The three keys agree on their three low
  bits (4), so the code splits four times before 20 finds room.
\<close>

theorem hash_split_not_depth_2_buckets_2:
  "depth_and_buckets (table_run id (ExtendibleHashTable 2) hash_split_calls) \<noteq> Some (2, 2)"
  by code_simp

text \<open>
  C8 (amended): with bucket size 2 and the identity hash, inserting \<open>(4, a)\<close>, \<open>(12, b)\<close>
  and \<open>(20, c)\<close> into a fresh table leaves it with global depth 4 and a bucket count of 5.
\<close>

theorem hash_split_depth_4_buckets_5:
  "depth_and_buckets (table_run id (ExtendibleHashTable 2) hash_split_calls) = Some (4, 5)"
  by code_simp

subsection \<open>Insert and then Find\<close>

lemma list_assign_find: "list_assign key v xs = Some ys \<Longrightarrow> list_find key ys = Some v"
  by (induction xs arbitrary: ys) (auto split: if_splits)

lemma Bucket_Insert_Find:
  "fst (Bucket_Insert b key v) \<Longrightarrow> Bucket_Find (snd (Bucket_Insert b key v)) key = Some v"
  by (auto simp: Bucket_Insert_def Bucket_Find_def split: if_splits option.splits
      dest: list_assign_find)

lemma Find_after_HashTable_Insert_aux:
  assumes "HashTable_Insert h t key v = Some t'"
  shows "directory_ok h t \<longrightarrow> Find h t' key = Some v"
proof (rule HashTable_Insert.raw_induct
    [where P = "\<lambda>h t key v t'. directory_ok h t \<longrightarrow> Find h t' key = Some v", OF _ assms])
  fix f :: "('a \<Rightarrow> nat) \<Rightarrow> ('a, 'b) hash_table \<Rightarrow> 'a \<Rightarrow> 'b \<Rightarrow> ('a, 'b) hash_table option"
  fix h t key v t'
  assume IH: "\<And>h t key v t'. f h t key v = Some t' \<Longrightarrow>
      directory_ok h t \<longrightarrow> Find h t' key = Some v"
  assume body: "(let p = dir t ! IndexOf h t key;
          res = Bucket_Insert (heap t ! p) key v
      in if fst res then Some (t\<lparr>heap := (heap t)[p := snd res]\<rparr>)
         else
           let dir_index = IndexOf h t key;
               t1 = grow t dir_index
           in f h (RedistributeBucket h t1 (dir t1 ! dir_index) dir_index) key v) = Some t'"
  show "directory_ok h t \<longrightarrow> Find h t' key = Some v"
  proof
    assume ok: "directory_ok h t"
    let ?p = "dir t ! IndexOf h t key"
    show "Find h t' key = Some v"
    proof (cases "fst (Bucket_Insert (heap t ! ?p) key v)")
      case True
      with body have t': "t' = t\<lparr>heap := (heap t)[?p := snd (Bucket_Insert (heap t ! ?p) key v)]\<rparr>"
        by (simp add: Let_def)
      have "?p < length (heap t)"
        using directory_ok_ref [OF ok IndexOf_less [OF ok]] .
      then show ?thesis
        using Bucket_Insert_Find [OF True] by (simp add: t' Find_def Let_def IndexOf_def)
    next
      case False
      with body have "f h (split_round h t key) key v = Some t'"
        by (simp add: Let_def split_round_def)
      from IH [OF this] directory_ok_split_round [OF ok] show ?thesis by simp
    qed
  qed
qed

lemma Find_after_HashTable_Insert:
  "HashTable_Insert h t key v = Some t' \<Longrightarrow> directory_ok h t \<Longrightarrow> Find h t' key = Some v"
  by (rule Find_after_HashTable_Insert_aux [THEN mp])

subsection \<open>A full bucket of capacity one that holds the key\<close>

lemma full_of_key_refuses:
  assumes "full_of_key h t key"
  shows "\<not> fst (Bucket_Insert (heap t ! (dir t ! IndexOf h t key)) key v)"
proof -
  have "length (items (heap t ! (dir t ! IndexOf h t key))) = 1"
    using assms unfolding full_of_key_def by (metis length_map length_Cons list.size(3) One_nat_def)
  then show ?thesis
    using assms by (simp add: full_of_key_def Bucket_Insert_def IsFull_def)
qed

lemma RedistributeBucket_single:
  assumes "items (heap t ! p) = [(key, v)]" and "bucket_size t = 1"
  shows "heap (RedistributeBucket h t p idx) !
           (if bit (h key) (depth (heap t ! p)) then length (heap t) + 1 else length (heap t))
         = \<lparr>array_size = 1, depth = depth (heap t ! p) + 1, items = [(key, v)]\<rparr>"
  using assms
  by (simp add: RedistributeBucket_def Let_def distribute_def Bucket_def Bucket_Insert_def
      IsFull_def nth_append and_pow_zero and_pow_pos push_bit_eq_mult)

lemma full_of_key_split_round:
  assumes full: "full_of_key h t key"
  shows "full_of_key h (split_round h t key) key"
proof -
  let ?idx = "IndexOf h t key"
  let ?t1 = "grow t ?idx"
  let ?p = "dir ?t1 ! ?idx"
  let ?L = "depth (heap ?t1 ! ?p)"
  let ?t2 = "RedistributeBucket h ?t1 ?p ?idx"
  let ?idx2 = "IndexOf h ?t2 key"
  have ok: "directory_ok h t" using full by (simp add: full_of_key_def)
  have t2: "split_round h t key = ?t2" by (simp add: split_round_def Let_def)
  have ok2: "directory_ok h ?t2" using directory_ok_split_round [OF ok, of key] t2 by simp
  have idx: "?idx < length (dir t)" using ok by (rule IndexOf_less)
  then have idx1: "?idx < length (dir ?t1)" using grow_length [of t ?idx] by simp
  have ok1: "directory_ok h ?t1" using ok by (rule directory_ok_grow)
  have p: "?p = dir t ! ?idx" using idx by (rule grow_nth)
  have heap1: "heap ?t1 = heap t" by (rule grow_heap)
  have less: "?L < global_depth ?t1" using ok idx by (rule grow_depth_less)
  have bs1: "bucket_size ?t1 = 1" using full by (simp add: full_of_key_def grow_def)
  obtain v where items: "items (heap ?t1 ! ?p) = [(key, v)]"
  proof -
    have "map fst (items (heap t ! (dir t ! ?idx))) = [key]"
      using full by (simp add: full_of_key_def)
    then obtain x where "items (heap t ! (dir t ! ?idx)) = [x]" "fst x = key" by auto
    then have "items (heap ?t1 ! ?p) = [(key, snd x)]" using p heap1 by (cases x) simp
    then show ?thesis by (rule that)
  qed
  have G2: "global_depth ?t2 = global_depth ?t1" by (rule RedistributeBucket_global_depth)
  have idx2: "?idx2 = h key mod 2 ^ global_depth ?t1"
    by (rule trans [OF IndexOf_mod]) (simp only: G2)
  have idx2_lt: "?idx2 < length (dir ?t1)"
    using directory_ok_length [OF ok1] idx2 by simp
  have same: "dir ?t1 ! ?idx2 = ?p"
  proof -
    have L1: "GetLocalDepth ?t1 ?idx = ?L" by (simp add: GetLocalDepth_def)
    have Lt: "?L \<le> global_depth t"
      using directory_ok_depth [OF ok idx] p heap1 by (simp add: GetLocalDepth_def)
    have "?idx mod 2 ^ ?L = h key mod 2 ^ ?L"
      using Lt by (simp add: IndexOf_mod mod_mod_pow)
    moreover have "?idx2 mod 2 ^ ?L = h key mod 2 ^ ?L"
      using less by (simp add: idx2 mod_mod_pow)
    ultimately show ?thesis
      using directory_ok_share [OF ok1 idx1 idx2_lt] L1 by simp
  qed
  have bit: "bit ?idx2 ?L = bit (h key) ?L"
    using less by (simp add: idx2 bit_take_bit_iff flip: take_bit_eq_mod)
  have "dir ?t2 ! ?idx2 = (if bit (h key) ?L then length (heap ?t1) + 1 else length (heap ?t1))"
    using RedistributeBucket_dir [OF ok1 idx1 idx2_lt] same bit by simp
  then have "heap ?t2 ! (dir ?t2 ! ?idx2) = \<lparr>array_size = 1, depth = ?L + 1, items = [(key, v)]\<rparr>"
    using RedistributeBucket_single [OF items bs1, of h ?idx] by simp
  then show ?thesis
    using ok2 bs1 by (simp add: t2 full_of_key_def RedistributeBucket_bucket_size)
qed

lemma full_of_key_never_returns_aux:
  assumes "HashTable_Insert h t key v = Some t'"
  shows "\<not> full_of_key h t key"
proof (rule HashTable_Insert.raw_induct
    [where P = "\<lambda>h t key v t'. \<not> full_of_key h t key", OF _ assms])
  fix f :: "('a \<Rightarrow> nat) \<Rightarrow> ('a, 'b) hash_table \<Rightarrow> 'a \<Rightarrow> 'b \<Rightarrow> ('a, 'b) hash_table option"
  fix h t key v t'
  assume IH: "\<And>h t key v t'. f h t key v = Some t' \<Longrightarrow> \<not> full_of_key h t key"
  assume body: "(let p = dir t ! IndexOf h t key;
          res = Bucket_Insert (heap t ! p) key v
      in if fst res then Some (t\<lparr>heap := (heap t)[p := snd res]\<rparr>)
         else
           let dir_index = IndexOf h t key;
               t1 = grow t dir_index
           in f h (RedistributeBucket h t1 (dir t1 ! dir_index) dir_index) key v) = Some t'"
  show "\<not> full_of_key h t key"
  proof
    assume full: "full_of_key h t key"
    from full_of_key_refuses [OF full, of v] body
    have "f h (split_round h t key) key v = Some t'"
      by (simp add: Let_def split_round_def)
    from IH [OF this] full_of_key_split_round [OF full] show False by simp
  qed
qed

lemma full_of_key_never_returns: "full_of_key h t key \<Longrightarrow> HashTable_Insert h t key v = None"
  using full_of_key_never_returns_aux [of h t key v] by (cases "HashTable_Insert h t key v") auto

lemma first_Insert_capacity_one:
  "HashTable_Insert h (ExtendibleHashTable 1) key v =
     Some ((ExtendibleHashTable 1)\<lparr>heap := [\<lparr>array_size = 1, depth = 0, items = [(key, v)]\<rparr>]\<rparr>)"
  by (subst HashTable_Insert_unfold)
    (simp add: ExtendibleHashTable_def IndexOf_mod Bucket_def Bucket_Insert_def IsFull_def)

text \<open>
  C3: after \<open>Insert(k, v)\<close> returns, \<open>Find(k)\<close> returns \<open>v\<close>, also for a key that is already
  present and also when its bucket is full, and \<open>Insert\<close> never fails. What \<open>Insert\<close>
  returns is right (\<open>Find_after_HashTable_Insert\<close>), but \<open>Bucket::Insert\<close> refuses a full
  bucket before it looks for the key, so overwriting a key in a full bucket goes through
  splits; with bucket capacity one the bucket that receives the key is full again after
  every split, and the second \<open>Insert\<close> of the same key never returns, for every hash
  function, key and values.
\<close>

theorem Insert_present_key_full_bucket_never_returns:
  "table_run h (ExtendibleHashTable 1) [TableInsert key v, TableInsert key v'] = None"
proof -
  let ?t1 = "(ExtendibleHashTable 1)\<lparr>heap := [\<lparr>array_size = 1, depth = 0, items = [(key, v)]\<rparr>]\<rparr>"
  have ok: "directory_ok h ?t1"
    using first_Insert_capacity_one directory_ok_fresh by (rule directory_ok_HashTable_Insert)
  have "full_of_key h ?t1 key"
    using ok by (simp add: full_of_key_def ExtendibleHashTable_def IndexOf_mod)
  then have "HashTable_Insert h ?t1 key v' = None" by (rule full_of_key_never_returns)
  then show ?thesis by (simp only: table_run.simps first_Insert_capacity_one option.case)
qed

section \<open>B+-tree: results\<close>

text \<open>\<open>Remove\<close> changes nothing but pin counts: the tree object and every page stay as they are.\<close>

lemma FetchPage_pages: "FetchPage bp p = Some bp1 \<Longrightarrow> pages bp1 = pages bp"
  by (auto simp: FetchPage_def split: option.splits)

lemma UnpinPage_pages: "pages (UnpinPage bp p d) = pages bp"
  by (simp add: UnpinPage_def)

lemma descend_to_leaf_pages_aux:
  assumes "descend_to_leaf tree key p bp = Some r"
  shows "\<forall>leaf bp'. r = Inr (leaf, bp') \<longrightarrow> pages bp' = pages bp"
proof (rule descend_to_leaf.raw_induct
    [where P = "\<lambda>tree key p bp r. \<forall>leaf bp'. r = Inr (leaf, bp') \<longrightarrow> pages bp' = pages bp",
      OF _ assms])
  fix f :: "'a bplus_tree \<Rightarrow> 'a \<Rightarrow> int \<Rightarrow> ('a, 'b) buffer_pool \<Rightarrow> (error + int \<times> ('a, 'b) buffer_pool) option"
  fix tree key p bp r
  assume IH: "\<And>tree key p bp r. f tree key p bp = Some r \<Longrightarrow>
      \<forall>leaf bp'. r = Inr (leaf, bp') \<longrightarrow> pages bp' = pages bp"
  assume step: "(case pages bp p of
        None \<Rightarrow> Some (Inl NullPointer)
      | Some pg \<Rightarrow>
          if IsLeafPage pg then Some (Inr (p, bp))
          else
            (case Internal_Find pg key (comparator tree) of
               Inl e \<Rightarrow> Some (Inl e)
             | Inr v \<Rightarrow>
                 (case FetchPage bp v of
                    None \<Rightarrow> Some (Inl NullPointer)
                  | Some bp1 \<Rightarrow> f tree key v (UnpinPage bp1 (page_id pg) False)))) = Some r"
  show "\<forall>leaf bp'. r = Inr (leaf, bp') \<longrightarrow> pages bp' = pages bp"
  proof (intro allI impI)
    fix leaf bp' assume r: "r = Inr (leaf, bp')"
    show "pages bp' = pages bp"
    proof (cases "pages bp p")
      case None
      with step r show ?thesis by simp
    next
      case (Some pg)
      show ?thesis
      proof (cases "IsLeafPage pg")
        case True
        with step r Some show ?thesis by simp
      next
        case False
        show ?thesis
        proof (cases "Internal_Find pg key (comparator tree)")
          case (Inl e)
          with step r Some False show ?thesis by simp
        next
          case (Inr v)
          show ?thesis
          proof (cases "FetchPage bp v")
            case None
            with step r Some False Inr show ?thesis by simp
          next
            case (Some bp1)
            with step \<open>pages bp p = Some pg\<close> False Inr
            have "f tree key v (UnpinPage bp1 (page_id pg) False) = Some r" by simp
            from IH [OF this] r have "pages bp' = pages (UnpinPage bp1 (page_id pg) False)" by simp
            then show ?thesis using FetchPage_pages [OF Some] by (simp add: UnpinPage_pages)
          qed
        qed
      qed
    qed
  qed
qed

lemma descend_to_leaf_pages:
  "descend_to_leaf tree key p bp = Some (Inr (leaf, bp')) \<Longrightarrow> pages bp' = pages bp"
  using descend_to_leaf_pages_aux [of tree key p bp "Inr (leaf, bp')"] by simp

lemma TreeTraversal_pages:
  assumes "TreeTraversal tree bp key = Some (Inr (absent, leaf, bp'))"
  shows "pages bp' = pages bp"
proof (cases "FetchPage bp (GetRootPageId tree)")
  case None
  with assms show ?thesis by (simp add: TreeTraversal_def)
next
  case (Some bp1)
  show ?thesis
  proof (cases "descend_to_leaf tree key (GetRootPageId tree) bp1")
    case None
    with assms Some show ?thesis by (simp add: TreeTraversal_def)
  next
    case d: (Some r)
    show ?thesis
    proof (cases r)
      case (Inl e)
      with assms Some d show ?thesis by (simp add: TreeTraversal_def)
    next
      case (Inr lb)
      obtain l bp2 where lb: "lb = (l, bp2)" by (cases lb)
      from d Inr lb have "pages bp2 = pages bp1" by (simp add: descend_to_leaf_pages)
      moreover have "bp' = bp2"
        using assms Some d Inr lb by (simp add: TreeTraversal_def split: option.splits)
      ultimately show ?thesis using FetchPage_pages [OF Some] by simp
    qed
  qed
qed

lemma Remove_changes_only_pins:
  assumes "BPlusTree_Remove tree bp key = Some (Inr (tree', bp'))"
  shows "tree' = tree \<and> pages bp' = pages bp"
proof (cases "GetRootPageId tree = INVALID_PAGE_ID")
  case True
  with assms show ?thesis by (simp add: BPlusTree_Remove_def)
next
  case False
  show ?thesis
  proof (cases "TreeTraversal tree bp key")
    case None
    with assms False show ?thesis by (simp add: BPlusTree_Remove_def)
  next
    case (Some r)
    show ?thesis
    proof (cases r)
      case (Inl e)
      with assms False Some show ?thesis by (simp add: BPlusTree_Remove_def)
    next
      case (Inr x)
      obtain absent leaf bp1 where x: "x = (absent, leaf, bp1)" by (cases x)
      from Some Inr x have "pages bp1 = pages bp" by (simp add: TreeTraversal_pages)
      moreover have "tree' = tree \<and> bp' = bp1"
        using assms False Some Inr x by (simp add: BPlusTree_Remove_def split: if_splits)
      ultimately show ?thesis by simp
    qed
  qed
qed

text \<open>
  C5: on an empty tree (root page id \<open>INVALID_PAGE_ID\<close>) \<open>GetValue\<close> returns none without
  going into any page. The code has no such test, unlike \<open>Insert\<close> and \<open>Remove\<close>: its first
  statement fetches the root page id and dereferences what the pool returns. In every
  pool where the sentinel names no page that is a null pointer, for every key.
\<close>

theorem GetValue_empty_tree_fetches_invalid_page:
  "GetValue (BPlusTree cmp leaf_max internal_max)
     (bp\<lparr>pages := (pages bp)(INVALID_PAGE_ID := None)\<rparr>) key = Some (Inl NullPointer)"
  by (simp add: GetValue_def BPlusTree_def FetchPage_def GetRootPageId_def)

text \<open>
  C1: \<open>Remove(k)\<close> of a stored key deletes the mapping and decrements the item count. The
  code's \<open>Remove\<close> finds the leaf and stops there: in the one-leaf tree, key 1 is found
  before and after \<open>Remove(1)\<close>, and the item count stays 1.
\<close>

theorem Remove_keeps_the_key:
  "found (GetValue one_key_tree one_key_pool 1) = Some (Inr (Some ''a'')) \<and>
   GetValue_after (BPlusTree_Remove one_key_tree one_key_pool 1) 1 = Some (Inr (Some ''a'')) \<and>
   cur_size one_key_tree = 1 \<and>
   cur_size_after (BPlusTree_Remove one_key_tree one_key_pool 1) = Some (Inr 1)"
  by code_simp

text \<open>
  C2: every public operation leaves the pin counts as they were. \<open>Remove\<close> does not: the
  leaf that \<open>TreeTraversal\<close> returns pinned is never unpinned, whether the key is there
  (1) or not (2). (\<open>Insert\<close> unpins it on each of its paths.)
\<close>

theorem Remove_leaves_leaf_pinned:
  "pin_count one_key_pool 1 = 0 \<and>
   pins_after 1 (BPlusTree_Remove one_key_tree one_key_pool 1) = Some (Inr 1) \<and>
   pins_after 1 (BPlusTree_Remove one_key_tree one_key_pool 2) = Some (Inr 1)"
  by code_simp

text \<open>
  A complete iteration does not either: \<open>Begin()\<close> keeps the pin of its own descent and
  the iterator's constructor fetches the leaf once more, for one unpin at the end.
\<close>

lemma full_iteration_leaves_leaf_pinned:
  "pins_left 1 (full_iteration one_key_tree one_key_pool) = Some (Inr 1)"
  by code_simp

text \<open>
  \<open>GetValue\<close> on the same tree gives its pin back.
\<close>

lemma GetValue_pins_balanced_example:
  "pins_after 1 (GetValue one_key_tree one_key_pool 1) = Some (Inr 0)"
  by code_simp

text \<open>
  C10: an iterator on the last slot of a leaf with no next leaf answers \<open>IsEnd\<close> with true
  although it still points at an entry of the leaf, which dereferencing returns; the
  iterator that \<open>End()\<close> builds has a null page pointer, so \<open>IsEnd\<close> and dereferencing on
  it go through a null pointer; \<^verbatim>\<open>operator==\<close> against it holds exactly for the iterators
  with page id \<open>INVALID_PAGE_ID\<close> and index \<open>-1\<close>.
\<close>

theorem IsEnd_true_on_last_entry_null_on_End:
  assumes "it_page it = Some p" and "pages bp p = Some pg"
    and "index_in_page it = page_size pg - 1" and "next_page_id pg = INVALID_PAGE_ID"
    and "0 \<le> index_in_page it" and "nat (index_in_page it) < length (leaf_array pg)"
  shows "IsEnd bp it = Inr True \<and>
         index_in_page it < page_size pg \<and>
         dereference bp it = Inr (leaf_array pg ! nat (index_in_page it)) \<and>
         End bp = Inr (end_iterator, bp) \<and>
         it_page end_iterator = None \<and>
         IsEnd bp end_iterator = Inl NullPointer \<and>
         dereference bp end_iterator = Inl NullPointer \<and>
         iterator_eq it' end_iterator = (it_page_id it' = INVALID_PAGE_ID \<and> index_in_page it' = - 1)"
  using assms
  by (simp add: IsEnd_def dereference_def End_def IndexIterator_def end_iterator_def iterator_eq_def)

theorem IsEnd_true_on_last_entry_null_on_End_witness:
  "it_page first_entry_iterator = Some 1 \<and> pages one_key_pool 1 = Some one_key_leaf \<and>
   index_in_page first_entry_iterator = page_size one_key_leaf - 1 \<and>
   next_page_id one_key_leaf = INVALID_PAGE_ID \<and>
   0 \<le> index_in_page first_entry_iterator \<and>
   nat (index_in_page first_entry_iterator) < length (leaf_array one_key_leaf) \<and>
   IsEnd one_key_pool first_entry_iterator = Inr True \<and>
   dereference one_key_pool first_entry_iterator = Inr (1, ''a'') \<and>
   IsEnd one_key_pool end_iterator = Inl NullPointer \<and>
   dereference one_key_pool end_iterator = Inl NullPointer \<and>
   \<not> iterator_eq first_entry_iterator end_iterator"
proof -
  have h1: "it_page first_entry_iterator = Some 1"
    by (simp add: first_entry_iterator_def)
  have h2: "pages one_key_pool 1 = Some one_key_leaf"
    by (simp add: one_key_pool_def)
  have h3: "index_in_page first_entry_iterator = page_size one_key_leaf - 1"
    by (simp add: first_entry_iterator_def one_key_leaf_def)
  have h4: "next_page_id one_key_leaf = INVALID_PAGE_ID"
    by (simp add: one_key_leaf_def)
  have h5: "0 \<le> index_in_page first_entry_iterator"
    by (simp add: first_entry_iterator_def)
  have h6: "nat (index_in_page first_entry_iterator) < length (leaf_array one_key_leaf)"
    by (simp add: first_entry_iterator_def one_key_leaf_def)
  have a: "leaf_array one_key_leaf ! nat (index_in_page first_entry_iterator) = (1, ''a'')"
    by (simp add: first_entry_iterator_def one_key_leaf_def)
  have b: "\<not> (it_page_id first_entry_iterator = INVALID_PAGE_ID \<and> index_in_page first_entry_iterator = - 1)"
    by (simp add: first_entry_iterator_def)
  from IsEnd_true_on_last_entry_null_on_End [OF h1 h2 h3 h4 h5 h6, of first_entry_iterator]
  show ?thesis using h1 h2 h3 h4 h5 h6 a b by simp
qed

end
